theory Spec2Isabelle
  imports Main "HOL-Library.Word"
begin

section \<open>Configuration trees\<close>

text \<open>
  The values that the YAML loader hands to \<^verbatim>\<open>Config\<close>: mappings, sequences and the scalars
  \<^verbatim>\<open>None\<close>, \<^verbatim>\<open>bool\<close>, \<^verbatim>\<open>int\<close>, \<^verbatim>\<open>float\<close> and \<^verbatim>\<open>str\<close>. A Python \<^verbatim>\<open>dict\<close> keeps its insertion
  order and its keys are unique; it is an association list here, and \<open>wf_tree\<close> below is
  the uniqueness of the keys. Keys are strings (the code calls \<^verbatim>\<open>key.strip()\<close> and
  \<^verbatim>\<open>'path' in key\<close> on them). A float is its 64 bits, a string the list of its code points,
  each below 256.
  Trees have no shared nodes.
\<close>

datatype pyval =
    PNone
  | PBool bool
  | PInt int
  | PFloat "64 word"
  | PStr string
  | PList "pyval list"
  | PDict "(string \<times> pyval) list"

datatype pytype = TNone | TBool | TInt | TFloat | TStr | TList | TDict

text \<open>\<^verbatim>\<open>type(x)\<close>\<close>

fun type_of :: "pyval \<Rightarrow> pytype" where
  "type_of PNone = TNone"
| "type_of (PBool b) = TBool"
| "type_of (PInt i) = TInt"
| "type_of (PFloat f) = TFloat"
| "type_of (PStr s) = TStr"
| "type_of (PList xs) = TList"
| "type_of (PDict items) = TDict"

text \<open>The name of a type, as \<^verbatim>\<open>type(x).__name__\<close> gives it.\<close>

fun type_name :: "pytype \<Rightarrow> string" where
  "type_name TNone = ''NoneType''"
| "type_name TBool = ''bool''"
| "type_name TInt = ''int''"
| "type_name TFloat = ''float''"
| "type_name TStr = ''str''"
| "type_name TList = ''list''"
| "type_name TDict = ''dict''"

text \<open>What an f-string prints for \<^verbatim>\<open>{type(x)}\<close>: \<^verbatim>\<open><class 'dict'>\<close>.\<close>

definition type_repr :: "pytype \<Rightarrow> string" where
  "type_repr t = ''<class '' @ [CHR 0x27] @ type_name t @ [CHR 0x27] @ ''>''"

text \<open>\<^verbatim>\<open>isinstance(x, dict)\<close>\<close>

fun isinstance_dict :: "pyval \<Rightarrow> bool" where
  "isinstance_dict (PDict items) = True"
| "isinstance_dict v = False"

text \<open>
  \<^verbatim>\<open>d[key] = value\<close>: an existing key keeps its place and takes the new value, a new key
  goes to the end.
\<close>

fun dict_set :: "'k \<Rightarrow> 'v \<Rightarrow> ('k \<times> 'v) list \<Rightarrow> ('k \<times> 'v) list" where
  "dict_set k v [] = [(k, v)]"
| "dict_set k v ((k', v') # rest) =
     (if k' = k then (k, v) # rest else (k', v') # dict_set k v rest)"

text \<open>Every mapping of the tree has unique keys, as a Python \<^verbatim>\<open>dict\<close> has.\<close>

fun wf_tree :: "pyval \<Rightarrow> bool" where
  "wf_tree (PDict items) =
     (distinct (map fst items) \<and> list_all (\<lambda>kv. wf_tree (snd kv)) items)"
| "wf_tree (PList xs) = list_all wf_tree xs"
| "wf_tree v = True"

text \<open>The value found by following a list of keys down through mappings.\<close>

fun lookup_path :: "pyval \<Rightarrow> string list \<Rightarrow> pyval option" where
  "lookup_path v [] = Some v"
| "lookup_path (PDict items) (k # ks) =
     (case map_of items k of None \<Rightarrow> None | Some v \<Rightarrow> lookup_path v ks)"
| "lookup_path v (k # ks) = None"

section \<open>Messages\<close>

text \<open>\<^verbatim>\<open>_make_bold\<close> and \<^verbatim>\<open>_get_delimiter\<close>\<close>

definition make_bold :: "string \<Rightarrow> string" where
  "make_bold s = (CHR 0x1B # ''[1m'') @ s @ (CHR 0x1B # ''[0m'')"

definition get_delimiter :: string where
  "get_delimiter = ''->''"

text \<open>The two f-strings of \<^verbatim>\<open>_update_config\<close> and the label of the recursive call.\<close>

definition different_types_msg :: "string \<Rightarrow> pyval \<Rightarrow> pyval \<Rightarrow> string" where
  "different_types_msg config_name default_cfg local_cfg =
     config_name @ '' has different types: '' @ type_repr (type_of default_cfg)
       @ '' and '' @ type_repr (type_of local_cfg) @ [CHR 0x0A]"

definition no_key_msg :: "string \<Rightarrow> string \<Rightarrow> string" where
  "no_key_msg config_name key =
     ''No key in '' @ config_name @ '' '' @ get_delimiter @ '' '' @ make_bold key @ [CHR 0x0A]"

definition new_str :: "string \<Rightarrow> string \<Rightarrow> string" where
  "new_str config_name key = config_name @ '' '' @ get_delimiter @ '' '' @ key"

text \<open>The label with which the merge reaches the node at a path.\<close>

fun path_label :: "string \<Rightarrow> string list \<Rightarrow> string" where
  "path_label config_name [] = config_name"
| "path_label config_name (k # ks) = path_label (new_str config_name k) ks"

section \<open>The merge: \<^verbatim>\<open>Config._update_config\<close>\<close>

text \<open>
  The function changes \<^verbatim>\<open>default_cfg\<close> in place and appends to \<^verbatim>\<open>issues_to_print\<close>; the
  model returns the flag, the default tree as it is afterwards, and the list of issues as
  it is afterwards. \<open>update_items\<close> is the \<^verbatim>\<open>for key, value in local_cfg.items()\<close> loop: its
  state is the default mapping, the issues and \<^verbatim>\<open>result\<close>.
\<close>

fun update_config :: "pyval \<Rightarrow> pyval \<Rightarrow> string \<Rightarrow> string list \<Rightarrow> bool \<times> pyval \<times> string list"
  and update_items :: "(string \<times> pyval) list \<Rightarrow> (string \<times> pyval) list \<Rightarrow> string \<Rightarrow> string list
      \<Rightarrow> bool \<Rightarrow> bool \<times> (string \<times> pyval) list \<times> string list" where
  "update_config default_cfg local_cfg config_name issues =
     (if type_of default_cfg \<noteq> type_of local_cfg
      then (False, default_cfg, issues @ [different_types_msg config_name default_cfg local_cfg])
      else (case local_cfg of
              PDict litems \<Rightarrow>
                (case default_cfg of
                   PDict ditems \<Rightarrow>
                     (case update_items ditems litems config_name issues True of
                        (result, ditems', issues') \<Rightarrow> (result, PDict ditems', issues'))
                 | _ \<Rightarrow> (True, default_cfg, issues))
            | _ \<Rightarrow> (True, default_cfg, issues)))"
| "update_items ditems [] config_name issues result = (result, ditems, issues)"
| "update_items ditems ((key, value) # rest) config_name issues result =
     (case map_of ditems key of
        None \<Rightarrow>
          update_items ditems rest config_name (issues @ [no_key_msg config_name key]) False
      | Some cfg1 \<Rightarrow>
          if isinstance_dict value
          then (case update_config cfg1 value (new_str config_name key) issues of
                  (r, cfg1', issues') \<Rightarrow>
                    update_items (dict_set key cfg1' ditems) rest config_name issues' (r \<and> result))
          else update_items (dict_set key value ditems) rest config_name issues result)"

declare update_config.simps [simp del]

text \<open>
  One pass started with no issues collected yet: the flag, the default tree afterwards and
  the issues of the pass.
\<close>

definition merge_result :: "pyval \<Rightarrow> pyval \<Rightarrow> string \<Rightarrow> bool" where
  "merge_result d l n = fst (update_config d l n [])"

definition merge_tree :: "pyval \<Rightarrow> pyval \<Rightarrow> string \<Rightarrow> pyval" where
  "merge_tree d l n = fst (snd (update_config d l n []))"

definition merge_issues :: "pyval \<Rightarrow> pyval \<Rightarrow> string \<Rightarrow> string list" where
  "merge_issues d l n = snd (snd (update_config d l n []))"

definition items_result :: "(string \<times> pyval) list \<Rightarrow> (string \<times> pyval) list \<Rightarrow> string \<Rightarrow> bool" where
  "items_result ds ls n = fst (update_items ds ls n [] True)"

definition items_tree ::
  "(string \<times> pyval) list \<Rightarrow> (string \<times> pyval) list \<Rightarrow> string \<Rightarrow> (string \<times> pyval) list" where
  "items_tree ds ls n = fst (snd (update_items ds ls n [] True))"

definition items_issues ::
  "(string \<times> pyval) list \<Rightarrow> (string \<times> pyval) list \<Rightarrow> string \<Rightarrow> string list" where
  "items_issues ds ls n = snd (snd (update_items ds ls n [] True))"

text \<open>What one key of the local mapping adds to the issues of a pass over two mappings.\<close>

definition key_issues :: "string \<Rightarrow> (string \<times> pyval) list \<Rightarrow> string \<times> pyval \<Rightarrow> string list" where
  "key_issues n ds kv =
     (case map_of ds (fst kv) of
        None \<Rightarrow> [no_key_msg n (fst kv)]
      | Some c \<Rightarrow> if isinstance_dict (snd kv) then merge_issues c (snd kv) (new_str n (fst kv)) else [])"

section \<open>Strings and paths\<close>

text \<open>
  \<^verbatim>\<open>key.strip()\<close> removes white space at both ends. A character of a string is a code
  point below 256; of these, \<^verbatim>\<open>str.isspace\<close> holds for tab to carriage return (9 to 13), the
  four separators \<^verbatim>\<open>\x1c\<close> to \<^verbatim>\<open>\x1f\<close> (28 to 31), the space (32), the next-line character
  \<^verbatim>\<open>\x85\<close> (133) and the no-break space \<^verbatim>\<open>\xa0\<close> (160).
\<close>

definition is_space :: "char \<Rightarrow> bool" where
  "is_space c =
     (let n = (of_char c :: nat)
      in (9 \<le> n \<and> n \<le> 13) \<or> (28 \<le> n \<and> n \<le> 32) \<or> n = 133 \<or> n = 160)"

definition strip :: "string \<Rightarrow> string" where
  "strip s = rev (dropWhile is_space (rev (dropWhile is_space s)))"

text \<open>\<^verbatim>\<open>sub in s\<close> on strings\<close>

fun contains :: "string \<Rightarrow> string \<Rightarrow> bool" where
  "contains sub [] = (sub = [])"
| "contains sub (c # cs) = (take (length sub) (c # cs) = sub \<or> contains sub cs)"

text \<open>
  \<^verbatim>\<open>pathlib.Path\<close> on a POSIX system, as far as the code uses it. A path is its root
  (empty, one slash or two) and its components; the constructor drops empty components
  and single dots, \<^verbatim>\<open>str\<close> writes the root and the components with slashes between, and
  the dot for the empty path.
\<close>

record ppath =
  root :: string
  parts :: "string list"

fun split_slash :: "string \<Rightarrow> string list" where
  "split_slash [] = [[]]"
| "split_slash (c # cs) =
     (if c = CHR ''/'' then [] # split_slash cs
      else (case split_slash cs of
              [] \<Rightarrow> [[c]]
            | w # ws \<Rightarrow> (c # w) # ws))"

fun join_slash :: "string list \<Rightarrow> string" where
  "join_slash [] = []"
| "join_slash [x] = x"
| "join_slash (x # y # ys) = x @ ''/'' @ join_slash (y # ys)"

definition parse_path :: "string \<Rightarrow> ppath" where
  "parse_path s =
     \<lparr> root = (if take 1 s \<noteq> ''/'' then []
               else if take 2 s = ''//'' \<and> take 3 s \<noteq> ''///'' then ''//''
               else ''/''),
       parts = filter (\<lambda>x. x \<noteq> [] \<and> x \<noteq> ''.'') (split_slash s) \<rparr>"

definition path_str :: "ppath \<Rightarrow> string" where
  "path_str p = (if root p = [] \<and> parts p = [] then ''.'' else root p @ join_slash (parts p))"

datatype error = FileNotFoundError | OSError | YAMLError | TypeError | KeyError | AttributeError

text \<open>
  \<^verbatim>\<open>base.joinpath(value)\<close>: an absolute argument replaces the base, a relative one is
  appended to it; an argument that is not a string raises \<^verbatim>\<open>TypeError\<close>.
\<close>

fun joinpath :: "ppath \<Rightarrow> pyval \<Rightarrow> error + ppath" where
  "joinpath base (PStr s) =
     (let q = parse_path s
      in if root q \<noteq> [] then Inr q
         else Inr \<lparr> root = root base, parts = parts base @ parts q \<rparr>)"
| "joinpath base v = Inl TypeError"

text \<open>\<^verbatim>\<open>str(base.joinpath(value))\<close>, the new value of a resolved entry\<close>

definition join_value :: "ppath \<Rightarrow> pyval \<Rightarrow> error + pyval" where
  "join_value base v =
     (case joinpath base v of Inl e \<Rightarrow> Inl e | Inr p \<Rightarrow> Inr (PStr (path_str p)))"

text \<open>\<^verbatim>\<open>Path(value)\<close> and \<^verbatim>\<open>.absolute()\<close>, with the current directory of the process\<close>

fun make_path :: "pyval \<Rightarrow> error + ppath" where
  "make_path (PStr s) = Inr (parse_path s)"
| "make_path v = Inl TypeError"

definition absolute :: "string \<Rightarrow> ppath \<Rightarrow> ppath" where
  "absolute cwd p =
     (if root p \<noteq> [] then p
      else \<lparr> root = root (parse_path cwd), parts = parts (parse_path cwd) @ parts p \<rparr>)"

section \<open>Path resolution: \<^verbatim>\<open>Config._set_absolute_paths\<close>\<close>

text \<open>
  Both iterations run over the items of a mapping and assign to keys of that mapping while
  they run; the state of each is the mapping. \<open>set_resources\<close> is the inner loop over
  the mapping under a \<^verbatim>\<open>resources\<close> key, \<open>set_paths_items\<close> the outer one. A value that
  \<^verbatim>\<open>joinpath\<close> refuses ends the pass with its error.
\<close>

fun set_resources ::
  "ppath \<Rightarrow> (string \<times> pyval) list \<Rightarrow> (string \<times> pyval) list \<Rightarrow> error + (string \<times> pyval) list" where
  "set_resources resources_dir val [] = Inr val"
| "set_resources resources_dir val ((sub_key, sub_value) # rest) =
     (case join_value resources_dir sub_value of
        Inl e \<Rightarrow> Inl e
      | Inr s \<Rightarrow> set_resources resources_dir (dict_set sub_key s val) rest)"

fun set_absolute_paths :: "ppath \<Rightarrow> ppath \<Rightarrow> pyval \<Rightarrow> error + pyval"
  and set_paths_items :: "ppath \<Rightarrow> ppath \<Rightarrow> (string \<times> pyval) list \<Rightarrow> (string \<times> pyval) list
      \<Rightarrow> error + (string \<times> pyval) list" where
  "set_absolute_paths working_dir resources_dir d =
     (case d of
        PDict items \<Rightarrow>
          (case set_paths_items working_dir resources_dir items items of
             Inl e \<Rightarrow> Inl e
           | Inr items' \<Rightarrow> Inr (PDict items'))
      | _ \<Rightarrow> Inl AttributeError)"
| "set_paths_items working_dir resources_dir d [] = Inr d"
| "set_paths_items working_dir resources_dir d ((key, value) # rest) =
     (case value of
        PDict sub \<Rightarrow>
          if strip key = ''resources''
          then (case set_resources resources_dir sub sub of
                  Inl e \<Rightarrow> Inl e
                | Inr sub' \<Rightarrow>
                    set_paths_items working_dir resources_dir (dict_set key (PDict sub') d) rest)
          else (case set_absolute_paths working_dir resources_dir value of
                  Inl e \<Rightarrow> Inl e
                | Inr value' \<Rightarrow>
                    set_paths_items working_dir resources_dir (dict_set key value' d) rest)
      | _ \<Rightarrow>
          if value \<noteq> PNone
          then if contains ''path'' key
               then (case join_value working_dir value of
                       Inl e \<Rightarrow> Inl e
                     | Inr s \<Rightarrow>
                         set_paths_items working_dir resources_dir (dict_set key s d) rest)
               else if contains ''location'' key
               then (case join_value resources_dir value of
                       Inl e \<Rightarrow> Inl e
                     | Inr s \<Rightarrow>
                         set_paths_items working_dir resources_dir (dict_set key s d) rest)
               else set_paths_items working_dir resources_dir d rest
          else set_paths_items working_dir resources_dir d rest)"

declare set_absolute_paths.simps [simp del]

text \<open>
  The resolution as the specification words it, one key/value pair after the other and
  without any assignment: under a key that is \<^verbatim>\<open>resources\<close> after trimming, every direct
  sub-value of a mapping becomes \<^verbatim>\<open>resources_dir / sub_value\<close>; any other mapping is
  resolved in the same way; a scalar that is not null becomes \<^verbatim>\<open>working_dir / value\<close> under
  a key that contains \<^verbatim>\<open>path\<close>, else \<^verbatim>\<open>resources_dir / value\<close> under a key that contains
  \<^verbatim>\<open>location\<close>, else it stays; a sequence counts as a scalar.
\<close>

fun spec_join_all :: "ppath \<Rightarrow> (string \<times> pyval) list \<Rightarrow> error + (string \<times> pyval) list" where
  "spec_join_all resources_dir [] = Inr []"
| "spec_join_all resources_dir ((sub_key, sub_value) # rest) =
     (case join_value resources_dir sub_value of
        Inl e \<Rightarrow> Inl e
      | Inr s \<Rightarrow>
          (case spec_join_all resources_dir rest of
             Inl e \<Rightarrow> Inl e
           | Inr rest' \<Rightarrow> Inr ((sub_key, s) # rest')))"

fun spec_resolve_value :: "ppath \<Rightarrow> ppath \<Rightarrow> string \<Rightarrow> pyval \<Rightarrow> error + pyval"
  and spec_resolve_items :: "ppath \<Rightarrow> ppath \<Rightarrow> (string \<times> pyval) list \<Rightarrow> error + (string \<times> pyval) list" where
  "spec_resolve_value working_dir resources_dir key value =
     (case value of
        PDict sub \<Rightarrow>
          if strip key = ''resources''
          then (case spec_join_all resources_dir sub of
                  Inl e \<Rightarrow> Inl e
                | Inr sub' \<Rightarrow> Inr (PDict sub'))
          else (case spec_resolve_items working_dir resources_dir sub of
                  Inl e \<Rightarrow> Inl e
                | Inr sub' \<Rightarrow> Inr (PDict sub'))
      | PNone \<Rightarrow> Inr PNone
      | _ \<Rightarrow>
          if contains ''path'' key then join_value working_dir value
          else if contains ''location'' key then join_value resources_dir value
          else Inr value)"
| "spec_resolve_items working_dir resources_dir [] = Inr []"
| "spec_resolve_items working_dir resources_dir ((key, value) # rest) =
     (case spec_resolve_value working_dir resources_dir key value of
        Inl e \<Rightarrow> Inl e
      | Inr value' \<Rightarrow>
          (case spec_resolve_items working_dir resources_dir rest of
             Inl e \<Rightarrow> Inl e
           | Inr rest' \<Rightarrow> Inr ((key, value') # rest')))"

declare spec_resolve_value.simps [simp del]

text \<open>
  The paths that the constructor builds: one of the three roots, and components that are
  not empty, not the single dot and free of slashes.
\<close>

definition valid_path :: "ppath \<Rightarrow> bool" where
  "valid_path p =
     ((root p = [] \<or> root p = ''/'' \<or> root p = ''//'') \<and>
      list_all (\<lambda>c. c \<noteq> [] \<and> c \<noteq> ''.'' \<and> CHR ''/'' \<notin> set c) (parts p))"

section \<open>Loading: \<^verbatim>\<open>Config._read_config\<close> and \<^verbatim>\<open>Config._load_config\<close>\<close>

text \<open>
  What the process finds under a file name: something that \<^verbatim>\<open>open\<close> refuses, a text that
  the YAML parser refuses, or a document; a name that is not listed is a file that does not
  exist. The empty document is \<^verbatim>\<open>None\<close>. The environment also holds the current directory,
  which \<^verbatim>\<open>Path.absolute\<close> reads.
\<close>

datatype source_file = Unopenable | Malformed | Document pyval

record env =
  files :: "(string \<times> source_file) list"
  cwd :: string

text \<open>Every document of the environment is a tree with unique keys in each mapping.\<close>

definition wf_env :: "env \<Rightarrow> bool" where
  "wf_env e = list_all (\<lambda>nf. case snd nf of Document v \<Rightarrow> wf_tree v | _ \<Rightarrow> True) (files e)"

text \<open>
  A call returns, raises, or ends the process by \<^verbatim>\<open>exit\<close> with a status. Beside the
  outcome stand the texts given to \<^verbatim>\<open>print\<close>, in order.
\<close>

datatype 'a outcome = Returned 'a | Raised error | Exited int

fun read_config :: "env \<Rightarrow> pyval \<Rightarrow> string list \<times> pyval outcome" where
  "read_config e (PStr source) =
     (case map_of (files e) source of
        None \<Rightarrow> ([], Raised FileNotFoundError)
      | Some Unopenable \<Rightarrow> ([], Raised OSError)
      | Some Malformed \<Rightarrow> ([], Raised YAMLError)
      | Some (Document config) \<Rightarrow>
          if config = PNone
          then ([source @ '' is empty. Fill it, please.''], Exited 0)
          else ([], Returned config))"
| "read_config e source = ([], Raised TypeError)"

text \<open>
  The local tree: \<^verbatim>\<open>dict()\<close>, replaced by the user source when
  \<^verbatim>\<open>Path(self._user_source).exists()\<close>.
\<close>

definition read_local :: "env \<Rightarrow> string \<Rightarrow> string list \<times> pyval outcome" where
  "read_local e user_source =
     (if map_of (files e) user_source \<noteq> None then read_config e (PStr user_source)
      else ([], Returned (PDict [])))"

definition problems_report :: "string list \<Rightarrow> string \<Rightarrow> string \<Rightarrow> string" where
  "problems_report config_issues default_source user_source =
     ''Problem(s) with configs:'' @ [CHR 0x0A] @ concat config_issues @ [CHR 0x0A]
       @ ''Check and correct your '' @ make_bold default_source
       @ '' and '' @ make_bold user_source @ ''!''"

text \<open>\<^verbatim>\<open>x[key]\<close> and \<^verbatim>\<open>x[key] = value\<close> with a string key\<close>

fun subscript :: "pyval \<Rightarrow> string \<Rightarrow> error + pyval" where
  "subscript (PDict items) k = (case map_of items k of None \<Rightarrow> Inl KeyError | Some v \<Rightarrow> Inr v)"
| "subscript v k = Inl TypeError"

fun setitem :: "pyval \<Rightarrow> string \<Rightarrow> pyval \<Rightarrow> error + pyval" where
  "setitem (PDict items) k v = Inr (PDict (dict_set k v items))"
| "setitem d k v = Inl TypeError"

text \<open>
  The end of \<^verbatim>\<open>_load_config\<close>, after a valid merge: the two base directories are read
  from the general section and made absolute, the working directory is written back, and
  the paths of the tree are resolved.
\<close>

definition finish_load :: "env \<Rightarrow> pyval \<Rightarrow> pyval outcome" where
  "finish_load e config =
     (case subscript config ''general'' of
        Inl err \<Rightarrow> Raised err
      | Inr general \<Rightarrow>
     (case subscript general ''working_dir'' of
        Inl err \<Rightarrow> Raised err
      | Inr w \<Rightarrow>
     (case make_path w of
        Inl err \<Rightarrow> Raised err
      | Inr wp \<Rightarrow>
     (case subscript general ''resources_dir'' of
        Inl err \<Rightarrow> Raised err
      | Inr r \<Rightarrow>
     (case make_path r of
        Inl err \<Rightarrow> Raised err
      | Inr rp \<Rightarrow>
     (case setitem general ''working_dir'' (PStr (path_str (absolute (cwd e) wp))) of
        Inl err \<Rightarrow> Raised err
      | Inr general' \<Rightarrow>
     (case setitem config ''general'' general' of
        Inl err \<Rightarrow> Raised err
      | Inr config' \<Rightarrow>
     (case set_absolute_paths (absolute (cwd e) wp) (absolute (cwd e) rp) config' of
        Inl err \<Rightarrow> Raised err
      | Inr resolved \<Rightarrow> Returned resolved))))))))"

definition load_config :: "env \<Rightarrow> string \<Rightarrow> string \<Rightarrow> string list \<times> pyval outcome" where
  "load_config e user_source default_source =
     (case read_config e (PStr default_source) of
        (out1, Returned config) \<Rightarrow>
          (case read_local e user_source of
             (out2, Returned local_config) \<Rightarrow>
               (case update_config config local_config default_source [] of
                  (is_valid, config', config_issues) \<Rightarrow>
                    (out1 @ out2 @
                       (if length config_issues > 1
                        then [problems_report config_issues default_source user_source]
                        else []),
                     if \<not> is_valid then Exited 0 else finish_load e config'))
           | (out2, Raised err) \<Rightarrow> (out1 @ out2, Raised err)
           | (out2, Exited c) \<Rightarrow> (out1 @ out2, Exited c))
      | (out1, Raised err) \<Rightarrow> (out1, Raised err)
      | (out1, Exited c) \<Rightarrow> (out1, Exited c))"

section \<open>The store: \<^verbatim>\<open>Config.reset\<close> and \<^verbatim>\<open>Config.get_part\<close>\<close>

text \<open>
  The \<^verbatim>\<open>Config\<close> object holds one attribute for each top-level key, in the order of
  \<^verbatim>\<open>self._keys\<close>. An attribute refers to an object; the objects live in a heap, so that a
  copy is another object than its original. \<open>fresh\<close> is the first address not in use. The
  names of the object's own fields and methods are left out.
\<close>

record config_obj =
  sections :: "(string \<times> nat) list"
  heap :: "nat \<Rightarrow> pyval"
  fresh :: nat

definition alloc :: "pyval \<Rightarrow> config_obj \<Rightarrow> nat \<times> config_obj" where
  "alloc v st = (fresh st, st\<lparr>heap := (heap st)(fresh st := v), fresh := Suc (fresh st)\<rparr>)"

text \<open>The loop \<^verbatim>\<open>for k, v in d.items(): setattr(self, k, v); self._keys.append(k)\<close>\<close>

fun set_sections :: "(string \<times> pyval) list \<Rightarrow> config_obj \<Rightarrow> config_obj" where
  "set_sections [] st = st"
| "set_sections ((k, v) # rest) st =
     (case alloc v st of
        (a, st') \<Rightarrow> set_sections rest (st'\<lparr>sections := dict_set k a (sections st')\<rparr>))"

definition reset :: "env \<Rightarrow> string \<Rightarrow> string \<Rightarrow> config_obj \<Rightarrow> string list \<times> unit outcome \<times> config_obj" where
  "reset e user_source default_source st =
     (case load_config e user_source default_source of
        (out, Returned config) \<Rightarrow>
          (case config of
             PDict items \<Rightarrow> (out, Returned (), set_sections items (st\<lparr>sections := []\<rparr>))
           | _ \<Rightarrow> (out, Raised TypeError, st\<lparr>sections := []\<rparr>))
      | (out, Raised err) \<Rightarrow> (out, Raised err, st\<lparr>sections := []\<rparr>)
      | (out, Exited c) \<Rightarrow> (out, Exited c, st\<lparr>sections := []\<rparr>))"

text \<open>
  \<^verbatim>\<open>__init__\<close>: an object without sections, then \<^verbatim>\<open>reset\<close>. No object is in the heap yet.
\<close>

definition new_config :: config_obj where
  "new_config = \<lparr>sections = [], heap = (\<lambda>a. PNone), fresh = 0\<rparr>"

definition init :: "env \<Rightarrow> string \<Rightarrow> string \<Rightarrow> string list \<times> unit outcome \<times> config_obj" where
  "init e user_source default_source = reset e user_source default_source new_config"

text \<open>\<^verbatim>\<open>self[name]\<close>: the attribute, or \<^verbatim>\<open>AttributeError\<close> from \<^verbatim>\<open>__getattr__\<close>\<close>

definition getitem :: "config_obj \<Rightarrow> string \<Rightarrow> error + nat" where
  "getitem st name =
     (case map_of (sections st) name of None \<Rightarrow> Inl AttributeError | Some a \<Rightarrow> Inr a)"

text \<open>\<^verbatim>\<open>d.update(other)\<close>: every key of \<^verbatim>\<open>other\<close> is assigned in \<^verbatim>\<open>d\<close>.\<close>

fun dict_update :: "(string \<times> pyval) list \<Rightarrow> (string \<times> pyval) list \<Rightarrow> (string \<times> pyval) list" where
  "dict_update d [] = d"
| "dict_update d ((k, v) # rest) = dict_update (dict_set k v d) rest"

text \<open>\<^verbatim>\<open>deepcopy\<close> builds an equal tree; \<open>alloc\<close> makes it a new object.\<close>

definition deepcopy :: "pyval \<Rightarrow> pyval" where
  "deepcopy v = v"

text \<open>
  \<^verbatim>\<open>get_part\<close> returns the address of the new object and the store with its heap. A
  section that is neither a mapping nor \<^verbatim>\<open>None\<close> has no \<^verbatim>\<open>update\<close>. A store built by
  \<open>reset\<close> has a mapping under \<^verbatim>\<open>general\<close>.
\<close>

definition get_part :: "config_obj \<Rightarrow> string \<Rightarrow> error + (nat \<times> config_obj)" where
  "get_part st subconfig =
     (case getitem st subconfig of
        Inl err \<Rightarrow> Inl err
      | Inr a \<Rightarrow>
          (case alloc (if heap st a = PNone then PDict [] else deepcopy (heap st a)) st of
             (p, st1) \<Rightarrow>
               (case heap st1 p of
                  PDict partial_config \<Rightarrow>
                    (case getitem st1 ''general'' of
                       Inl err \<Rightarrow> Inl err
                     | Inr g \<Rightarrow>
                         (case heap st1 g of
                            PDict general \<Rightarrow>
                              Inr (p, st1\<lparr>heap := (heap st1)
                                     (p := PDict (dict_update partial_config general))\<rparr>)
                          | _ \<Rightarrow> Inl TypeError))
                | _ \<Rightarrow> Inl AttributeError)))"

text \<open>What the caller of \<^verbatim>\<open>get_part\<close> holds: the tree of the returned object.\<close>

definition part_value :: "config_obj \<Rightarrow> string \<Rightarrow> error + pyval" where
  "part_value st subconfig =
     (case get_part st subconfig of
        Inl err \<Rightarrow> Inl err
      | Inr (p, st') \<Rightarrow> Inr (heap st' p))"

section \<open>Properties of the merge\<close>

lemma dict_set_keys: "map_of d k \<noteq> None \<Longrightarrow> map fst (dict_set k v d) = map fst d"
  by (induction d) (auto split: if_splits)

lemma map_of_dict_set: "map_of (dict_set k v d) = (map_of d)(k \<mapsto> v)"
  by (induction d) (auto simp: fun_eq_iff)

lemma dict_set_same: "map_of d k = Some v \<Longrightarrow> dict_set k v d = d"
  by (induction d) (auto split: if_splits)

lemma update_items_acc:
  assumes "\<And>k v d n acc. (k, v) \<in> set ls \<Longrightarrow>
     update_config d v n acc = (merge_result d v n, merge_tree d v n, acc @ merge_issues d v n)"
  shows "update_items ds ls n acc res =
     (res \<and> items_result ds ls n, items_tree ds ls n, acc @ items_issues ds ls n)"
  using assms
proof (induction ls arbitrary: ds acc res)
  case Nil
  show ?case by (simp add: items_result_def items_tree_def items_issues_def)
next
  case (Cons kv ls)
  obtain k v where kv: "kv = (k, v)" by (cases kv)
  have IH: "\<And>ds acc res. update_items ds ls n acc res =
     (res \<and> items_result ds ls n, items_tree ds ls n, acc @ items_issues ds ls n)"
    by (rule Cons.IH) (rule Cons.prems, erule list.set_intros(2))
  have H: "\<And>d n acc. update_config d v n acc = (merge_result d v n, merge_tree d v n, acc @ merge_issues d v n)"
    by (rule Cons.prems [of k]) (simp add: kv)
  have E: "update_items ds ((k, v) # ls) n acc res =
     (res \<and> items_result ds ((k, v) # ls) n, items_tree ds ((k, v) # ls) n,
      acc @ items_issues ds ((k, v) # ls) n)"
  proof (cases "map_of ds k")
    case None
    show ?thesis
      unfolding items_result_def items_tree_def items_issues_def
      using None by (simp add: IH [of ds "_ @ _"] IH [of ds "[_]"] items_result_def items_tree_def items_issues_def)
  next
    case (Some c)
    show ?thesis
    proof (cases "isinstance_dict v")
      case True
      show ?thesis
        unfolding items_result_def items_tree_def items_issues_def
        using Some True
        by (simp add: H [of c _ acc] H [of c _ "[]"] IH [of _ "_ @ _"] IH [of _ "merge_issues _ _ _"] items_result_def items_tree_def items_issues_def conj_commute)
    next
      case False
      show ?thesis
        unfolding items_result_def items_tree_def items_issues_def
        using Some False
        by (simp add: IH [of _ acc] items_result_def items_tree_def items_issues_def)
    qed
  qed
  show ?case unfolding kv by (rule E)
qed

lemma update_config_acc:
  "update_config d l n acc = (merge_result d l n, merge_tree d l n, acc @ merge_issues d l n)"
proof (induction l arbitrary: d n acc)
  case (PDict items)
  have I: "\<And>ds n acc res. update_items ds items n acc res =
     (res \<and> items_result ds items n, items_tree ds items n, acc @ items_issues ds items n)"
    by (rule update_items_acc) (use PDict in \<open>force\<close>)
  show ?case
    unfolding merge_result_def merge_tree_def merge_issues_def
    by (cases d) (simp_all add: update_config.simps I [of _ _ acc] items_result_def items_tree_def items_issues_def split: prod.splits)
qed (simp_all add: update_config.simps merge_result_def merge_tree_def merge_issues_def)

lemma merge_mismatch:
  assumes "type_of d \<noteq> type_of l"
  shows "merge_result d l n = False" "merge_tree d l n = d"
    "merge_issues d l n = [different_types_msg n d l]"
  using assms by (simp_all add: merge_result_def merge_tree_def merge_issues_def update_config.simps)

lemma merge_dicts:
  "merge_result (PDict ds) (PDict ls) n = items_result ds ls n"
  "merge_tree (PDict ds) (PDict ls) n = PDict (items_tree ds ls n)"
  "merge_issues (PDict ds) (PDict ls) n = items_issues ds ls n"
  by (simp_all add: merge_result_def merge_tree_def merge_issues_def update_config.simps
      items_result_def items_tree_def items_issues_def split: prod.splits)

lemma merge_leaf:
  assumes "type_of d = type_of l" "\<not> isinstance_dict l"
  shows "merge_result d l n = True" "merge_tree d l n = d" "merge_issues d l n = []"
  using assms
  by (cases l; simp add: merge_result_def merge_tree_def merge_issues_def update_config.simps)+

lemma items_Nil:
  "items_result ds [] n = True" "items_tree ds [] n = ds" "items_issues ds [] n = []"
  by (simp_all add: items_result_def items_tree_def items_issues_def)

lemma items_Cons_None:
  assumes "map_of ds k = None"
  shows "items_result ds ((k, v) # ls) n = False"
    "items_tree ds ((k, v) # ls) n = items_tree ds ls n"
    "items_issues ds ((k, v) # ls) n = no_key_msg n k # items_issues ds ls n"
  using assms
  by (simp_all add: items_result_def items_tree_def items_issues_def
      update_items_acc [OF update_config_acc, of ds ls n "[_]"])

lemma items_Cons_dict:
  assumes "map_of ds k = Some c" "isinstance_dict v"
  shows "items_result ds ((k, v) # ls) n =
      (merge_result c v (new_str n k) \<and> items_result (dict_set k (merge_tree c v (new_str n k)) ds) ls n)"
    "items_tree ds ((k, v) # ls) n = items_tree (dict_set k (merge_tree c v (new_str n k)) ds) ls n"
    "items_issues ds ((k, v) # ls) n =
      merge_issues c v (new_str n k) @ items_issues (dict_set k (merge_tree c v (new_str n k)) ds) ls n"
  using assms
  by (simp_all add: items_result_def [of ds] items_tree_def [of ds] items_issues_def [of ds]
      update_config_acc [of c v _ "[]"]
      update_items_acc [OF update_config_acc, of _ ls n "merge_issues _ _ _"])

lemma items_Cons_leaf:
  assumes "map_of ds k = Some c" "\<not> isinstance_dict v"
  shows "items_result ds ((k, v) # ls) n = items_result (dict_set k v ds) ls n"
    "items_tree ds ((k, v) # ls) n = items_tree (dict_set k v ds) ls n"
    "items_issues ds ((k, v) # ls) n = items_issues (dict_set k v ds) ls n"
  using assms
  by (simp_all add: items_result_def items_tree_def items_issues_def)

lemma items_tree_keys: "map fst (items_tree ds ls n) = map fst ds"
proof (induction ls arbitrary: ds)
  case Nil
  show ?case by (simp add: items_Nil)
next
  case (Cons kv ls)
  obtain k v where kv: "kv = (k, v)" by (cases kv)
  show ?case
  proof (cases "map_of ds k")
    case None
    then show ?thesis by (simp add: kv items_Cons_None Cons.IH)
  next
    case (Some c)
    then show ?thesis
      by (cases "isinstance_dict v")
        (simp_all add: kv items_Cons_dict items_Cons_leaf Cons.IH dict_set_keys)
  qed
qed

lemma merge_tree_type: "type_of (merge_tree d l n) = type_of d"
proof (cases "type_of d = type_of l")
  case False
  then show ?thesis by (simp add: merge_mismatch)
next
  case True
  then show ?thesis
    by (cases l; cases d; simp add: merge_leaf merge_dicts)
qed

lemma items_result_iff:
  assumes "\<And>k v d n. (k, v) \<in> set ls \<Longrightarrow> merge_result d v n = (merge_issues d v n = [])"
  shows "items_result ds ls n = (items_issues ds ls n = [])"
  using assms
proof (induction ls arbitrary: ds)
  case Nil
  show ?case by (simp add: items_Nil)
next
  case (Cons kv ls)
  obtain k v where kv: "kv = (k, v)" by (cases kv)
  have IH: "\<And>ds. items_result ds ls n = (items_issues ds ls n = [])"
    by (rule Cons.IH) (rule Cons.prems, erule list.set_intros(2))
  have H: "\<And>d n. merge_result d v n = (merge_issues d v n = [])"
    by (rule Cons.prems [of k]) (simp add: kv)
  show ?case
  proof (cases "map_of ds k")
    case None
    then show ?thesis by (simp add: kv items_Cons_None)
  next
    case (Some c)
    then show ?thesis
      by (cases "isinstance_dict v")
        (simp_all add: kv items_Cons_dict items_Cons_leaf IH H)
  qed
qed

lemma merge_result_iff_leaf:
  "\<not> isinstance_dict l \<Longrightarrow> merge_result d l n = (merge_issues d l n = [])"
  by (cases "type_of d = type_of l") (simp_all add: merge_mismatch merge_leaf)

lemma merge_result_iff: "merge_result d l n = (merge_issues d l n = [])"
proof (induction l arbitrary: d n)
  case (PDict items)
  have I: "\<And>ds n. items_result ds items n = (items_issues ds items n = [])"
    by (rule items_result_iff) (use PDict in \<open>force\<close>)
  show ?case
  proof (cases "type_of d = TDict")
    case True
    then obtain ds where "d = PDict ds" by (cases d) simp_all
    then show ?thesis by (simp add: merge_dicts I)
  next
    case False
    then show ?thesis by (simp add: merge_mismatch)
  qed
qed (simp_all add: merge_result_iff_leaf)

lemma map_of_items_tree:
  assumes "distinct (map fst ls)"
  shows "map_of (items_tree ds ls n) k =
     (case map_of ls k of
        None \<Rightarrow> map_of ds k
      | Some v \<Rightarrow>
          (case map_of ds k of
             None \<Rightarrow> None
           | Some c \<Rightarrow> Some (if isinstance_dict v then merge_tree c v (new_str n k) else v)))"
  using assms
proof (induction ls arbitrary: ds)
  case Nil
  show ?case by (simp add: items_Nil split: option.splits)
next
  case (Cons kv ls)
  obtain k' v' where kv: "kv = (k', v')" by (cases kv)
  have d: "distinct (map fst ls)" and nk: "map_of ls k' = None"
    using Cons.prems by (auto simp: kv map_of_eq_None_iff)
  note IH = Cons.IH [OF d]
  show ?case
  proof (cases "map_of ds k'")
    case None
    then show ?thesis
      using nk by (auto simp: kv items_Cons_None IH split: option.splits)
  next
    case (Some c)
    then show ?thesis
      using nk
      by (cases "isinstance_dict v'")
        (auto simp: kv items_Cons_dict items_Cons_leaf IH map_of_dict_set split: option.splits)
  qed
qed

lemma key_issues_cong:
  "map_of ds' (fst kv) = map_of ds (fst kv) \<Longrightarrow> key_issues n ds' kv = key_issues n ds kv"
  by (simp add: key_issues_def)

lemma items_issues_concat:
  assumes "distinct (map fst ls)"
  shows "items_issues ds ls n = concat (map (key_issues n ds) ls)"
  using assms
proof (induction ls arbitrary: ds)
  case Nil
  show ?case by (simp add: items_Nil)
next
  case (Cons kv ls)
  obtain k v where kv: "kv = (k, v)" by (cases kv)
  have d: "distinct (map fst ls)" and nk: "k \<notin> fst ` set ls"
    using Cons.prems by (auto simp: kv)
  note IH = Cons.IH [OF d]
  have same: "map (key_issues n (dict_set k x ds)) ls = map (key_issues n ds) ls" for x
    using nk by (intro map_cong refl key_issues_cong) (auto simp: map_of_dict_set)
  show ?case
  proof (cases "map_of ds k")
    case None
    then show ?thesis by (simp add: kv items_Cons_None IH key_issues_def)
  next
    case (Some c)
    then show ?thesis
      by (cases "isinstance_dict v")
        (simp_all add: kv items_Cons_dict items_Cons_leaf IH same, simp_all add: key_issues_def)
  qed
qed

lemma items_tree_fixpoint:
  assumes "\<And>k v c. (k, v) \<in> set ls \<Longrightarrow> map_of ds k = Some c \<Longrightarrow>
     (if isinstance_dict v then merge_tree c v (new_str n k) else v) = c"
  shows "items_tree ds ls n = ds"
  using assms
proof (induction ls)
  case Nil
  show ?case by (simp add: items_Nil)
next
  case (Cons kv ls)
  obtain k v where kv: "kv = (k, v)" by (cases kv)
  have IH: "items_tree ds ls n = ds"
    by (rule Cons.IH) (rule Cons.prems, erule list.set_intros(2))
  show ?case
  proof (cases "map_of ds k")
    case None
    then show ?thesis by (simp add: kv items_Cons_None IH)
  next
    case (Some c)
    have "(if isinstance_dict v then merge_tree c v (new_str n k) else v) = c"
      by (rule Cons.prems [of k v c]) (simp_all add: kv Some)
    then show ?thesis
      using Some
      by (cases "isinstance_dict v")
        (simp_all add: kv items_Cons_dict items_Cons_leaf dict_set_same IH)
  qed
qed

lemma wf_tree_item: "wf_tree (PDict ls) \<Longrightarrow> (k, v) \<in> set ls \<Longrightarrow> wf_tree v"
  by (auto simp: list_all_iff)

lemma wf_tree_distinct: "wf_tree (PDict ls) \<Longrightarrow> distinct (map fst ls)"
  by simp

lemma merge_idem:
  "wf_tree l \<Longrightarrow>
     merge_tree (merge_tree d l n) l n = merge_tree d l n \<and>
     merge_issues (merge_tree d l n) l n = merge_issues d l n"
proof (induction l arbitrary: d n)
  case (PDict ls)
  have dist: "distinct (map fst ls)" using PDict.prems by simp
  have IH: "\<And>k v d n. (k, v) \<in> set ls \<Longrightarrow>
      merge_tree (merge_tree d v n) v n = merge_tree d v n \<and>
      merge_issues (merge_tree d v n) v n = merge_issues d v n"
  proof -
    fix k v d n assume m: "(k, v) \<in> set ls"
    have "wf_tree v" using PDict.prems m by (rule wf_tree_item)
    with m show "merge_tree (merge_tree d v n) v n = merge_tree d v n \<and>
      merge_issues (merge_tree d v n) v n = merge_issues d v n"
      using PDict.IH [of "(k, v)" v d n] by simp
  qed
  show ?case
  proof (cases "type_of d = TDict")
    case False
    then show ?thesis by (simp add: merge_mismatch)
  next
    case True
    then obtain ds where d: "d = PDict ds" by (cases d) simp_all
    let ?ds1 = "items_tree ds ls n"
    have look: "map_of ?ds1 k =
       (case map_of ds k of None \<Rightarrow> None
        | Some c \<Rightarrow> Some (if isinstance_dict v then merge_tree c v (new_str n k) else v))"
      if "(k, v) \<in> set ls" for k v
      using that dist by (simp add: map_of_items_tree)
    have t: "items_tree ?ds1 ls n = ?ds1"
    proof (rule items_tree_fixpoint)
      fix k v c assume m: "(k, v) \<in> set ls" and s: "map_of ?ds1 k = Some c"
      show "(if isinstance_dict v then merge_tree c v (new_str n k) else v) = c"
        using s look [OF m] IH [OF m] by (auto split: option.splits if_splits)
    qed
    have i: "map (key_issues n ?ds1) ls = map (key_issues n ds) ls"
    proof (rule map_cong [OF refl])
      fix kv assume m: "kv \<in> set ls"
      obtain k v where kv: "kv = (k, v)" by (cases kv)
      show "key_issues n ?ds1 kv = key_issues n ds kv"
        using look [of k v] IH [of k v] m
        by (auto simp: kv key_issues_def split: option.splits)
    qed
    show ?thesis
      by (simp add: d merge_dicts t items_issues_concat [OF dist] i)
  qed
next
  case PNone
  show ?case by (cases "type_of d = TNone") (simp_all add: merge_mismatch merge_leaf)
next
  case (PBool b)
  show ?case by (cases "type_of d = TBool") (simp_all add: merge_mismatch merge_leaf)
next
  case (PInt i)
  show ?case by (cases "type_of d = TInt") (simp_all add: merge_mismatch merge_leaf)
next
  case (PFloat f)
  show ?case by (cases "type_of d = TFloat") (simp_all add: merge_mismatch merge_leaf)
next
  case (PStr s)
  show ?case by (cases "type_of d = TStr") (simp_all add: merge_mismatch merge_leaf)
next
  case (PList xs)
  show ?case by (cases "type_of d = TList") (simp_all add: merge_mismatch merge_leaf)
qed

lemma lookup_path_append:
  "lookup_path t (p @ q) = (case lookup_path t p of None \<Rightarrow> None | Some t' \<Rightarrow> lookup_path t' q)"
proof (induction p arbitrary: t)
  case Nil
  show ?case by simp
next
  case (Cons k ks)
  show ?case by (cases t) (simp_all add: Cons.IH split: option.splits)
qed

lemma lookup_path_Cons_Some:
  assumes "lookup_path t (k # ks) = Some x"
  obtains items c where "t = PDict items" "map_of items k = Some c" "lookup_path c ks = Some x"
  using assms by (cases t) (auto split: option.splits)

lemma lookup_path_dict:
  assumes "lookup_path v ks = Some x" "ks = [] \<longrightarrow> isinstance_dict x"
  shows "isinstance_dict v"
  using assms by (cases ks; cases v) simp_all

lemma concat_split:
  assumes "x \<in> set xs"
  shows "\<exists>pre post. concat (map f xs) = pre @ f x @ post"
proof -
  from assms obtain ys zs where "xs = ys @ x # zs" by (auto simp: in_set_conv_decomp)
  then have "concat (map f xs) = concat (map f ys) @ f x @ concat (map f zs)" by simp
  then show ?thesis by blast
qed

lemma merge_descent:
  assumes "wf_tree l" "lookup_path d p = Some dp" "lookup_path l p = Some lp"
    "p = [] \<or> isinstance_dict lp"
  shows "lookup_path (merge_tree d l n) p = Some (merge_tree dp lp (path_label n p)) \<and>
    (\<exists>pre post. merge_issues d l n = pre @ merge_issues dp lp (path_label n p) @ post) \<and>
    wf_tree lp"
  using assms
proof (induction p arbitrary: d l n)
  case Nil
  then show ?case by simp (metis append_Nil append_Nil2)
next
  case (Cons k ks)
  from Cons.prems(2) obtain ds c where d: "d = PDict ds" and c: "map_of ds k = Some c"
    and cp: "lookup_path c ks = Some dp" by (rule lookup_path_Cons_Some)
  from Cons.prems(3) obtain ls v where l: "l = PDict ls" and v: "map_of ls k = Some v"
    and vp: "lookup_path v ks = Some lp" by (rule lookup_path_Cons_Some)
  have dist: "distinct (map fst ls)" using Cons.prems(1) l by simp
  have mem: "(k, v) \<in> set ls" using v by (rule map_of_SomeD)
  have wfv: "wf_tree v" using Cons.prems(1) mem unfolding l by (rule wf_tree_item)
  have dv: "isinstance_dict v" using vp Cons.prems(4) by (intro lookup_path_dict [OF vp]) simp
  have ks: "ks = [] \<or> isinstance_dict lp" using Cons.prems(4) by simp
  note IH = Cons.IH [OF wfv cp vp ks, of "new_str n k"]
  have look: "map_of (items_tree ds ls n) k = Some (merge_tree c v (new_str n k))"
    using dist c v dv by (simp add: map_of_items_tree)
  have ki: "key_issues n ds (k, v) = merge_issues c v (new_str n k)"
    using c dv by (simp add: key_issues_def)
  obtain a b where ab: "concat (map (key_issues n ds) ls) = a @ key_issues n ds (k, v) @ b"
    using concat_split [OF mem] by blast
  obtain pre post where pp: "merge_issues c v (new_str n k) =
      pre @ merge_issues dp lp (path_label (new_str n k) ks) @ post"
    using IH by blast
  have "merge_issues d l n = (a @ pre) @ merge_issues dp lp (path_label n (k # ks)) @ (post @ b)"
    by (simp add: d l merge_dicts items_issues_concat [OF dist] ab ki pp)
  then have iss: "\<exists>pre post. merge_issues d l n = pre @ merge_issues dp lp (path_label n (k # ks)) @ post"
    by blast
  show ?case
    using IH iss by (simp add: d l merge_dicts look)
qed

lemma update_config_proj:
  "update_config d l n [] = (ok, merged, issues) \<Longrightarrow>
     ok = merge_result d l n \<and> merged = merge_tree d l n \<and> issues = merge_issues d l n"
  by (simp add: merge_result_def merge_tree_def merge_issues_def)

section \<open>Claims about the merge\<close>

text \<open>
  Claim C10, as amended. Merging the local tree a second time into the result of the first
  merge gives the tree of the first merge again, the same flag and the same issues as the
  first pass; when the first pass was valid, these are no issues at all. (The claim asks for
  zero issues on the second pass after any first pass; a key that the default tree lacks is
  reported on every pass.)
\<close>

theorem merge_twice_same:
  assumes "wf_tree local_cfg"
    and "update_config default_cfg local_cfg config_name [] = (ok, merged, issues)"
  shows "update_config merged local_cfg config_name [] = (ok, merged, issues) \<and> (ok \<longrightarrow> issues = [])"
proof -
  note p = update_config_proj [OF assms(2)]
  have "update_config merged local_cfg config_name [] =
      (merge_result merged local_cfg config_name, merge_tree merged local_cfg config_name,
       [] @ merge_issues merged local_cfg config_name)"
    by (rule update_config_acc)
  moreover have "merge_tree merged local_cfg config_name = merged"
    and "merge_issues merged local_cfg config_name = issues"
    using merge_idem [OF assms(1), of default_cfg config_name] p by simp_all
  moreover have "merge_result merged local_cfg config_name = ok"
    using calculation(3) p by (simp add: merge_result_iff)
  ultimately show ?thesis using p by (simp add: merge_result_iff)
qed

text \<open>The theorem at a local tree with one overriding leaf and one unknown key.\<close>

theorem merge_twice_same_witness:
  "wf_tree (PDict [(''feature'', PDict [(''threshold'', PInt 9)]), (''extra'', PInt 1)]) \<and>
   update_config
     (PDict [(''general'', PDict [(''timeout'', PInt 30)]), (''feature'', PDict [(''threshold'', PInt 5)])])
     (PDict [(''feature'', PDict [(''threshold'', PInt 9)]), (''extra'', PInt 1)]) ''cfg'' [] =
     (False,
      PDict [(''general'', PDict [(''timeout'', PInt 30)]), (''feature'', PDict [(''threshold'', PInt 9)])],
      [no_key_msg ''cfg'' ''extra'']) \<and>
   update_config
     (PDict [(''general'', PDict [(''timeout'', PInt 30)]), (''feature'', PDict [(''threshold'', PInt 9)])])
     (PDict [(''feature'', PDict [(''threshold'', PInt 9)]), (''extra'', PInt 1)]) ''cfg'' [] =
     (False,
      PDict [(''general'', PDict [(''timeout'', PInt 30)]), (''feature'', PDict [(''threshold'', PInt 9)])],
      [no_key_msg ''cfg'' ''extra''])"
proof -
  have w: "wf_tree (PDict [(''feature'', PDict [(''threshold'', PInt 9)]), (''extra'', PInt 1)])"
    by simp
  have u: "update_config
     (PDict [(''general'', PDict [(''timeout'', PInt 30)]), (''feature'', PDict [(''threshold'', PInt 5)])])
     (PDict [(''feature'', PDict [(''threshold'', PInt 9)]), (''extra'', PInt 1)]) ''cfg'' [] =
     (False,
      PDict [(''general'', PDict [(''timeout'', PInt 30)]), (''feature'', PDict [(''threshold'', PInt 9)])],
      [no_key_msg ''cfg'' ''extra''])"
    by (simp add: update_config.simps)
  show ?thesis using w u merge_twice_same [OF w u] by simp
qed

text \<open>
  Claim C10 as stated fails: with default \<^verbatim>\<open>{a: 1}\<close> and local \<^verbatim>\<open>{b: 2}\<close> the second pass
  collects one issue.
\<close>

theorem merge_twice_issues_counterexample:
  "merge_issues
     (merge_tree (PDict [(''a'', PInt 1)]) (PDict [(''b'', PInt 2)]) ''cfg'')
     (PDict [(''b'', PInt 2)]) ''cfg'' = [no_key_msg ''cfg'' ''b'']"
  by (simp add: merge_issues_def merge_tree_def update_config.simps)

text \<open>
  Claim C4, as amended. After merging a local tree into a default tree, at every pair of
  mappings that stand at the same path \<open>p\<close> of the two trees: a key that only the default
  mapping has keeps its default value in the merged tree, with everything below it, and a
  key of both mappings whose local value is not a mapping has exactly the local value in the
  merged tree. The local tree has unique keys in each mapping, as every Python \<^verbatim>\<open>dict\<close>
  has. (The keys of a default mapping that stands where the local tree has a leaf are not
  kept: the leaf replaces the mapping.)
\<close>

theorem merge_defaults_survive_leaves_override:
  assumes "wf_tree local_cfg"
    and "lookup_path default_cfg p = Some (PDict ds)"
    and "lookup_path local_cfg p = Some (PDict ls)"
    and "update_config default_cfg local_cfg config_name [] = (ok, merged, issues)"
  shows "(\<forall>k v. map_of ds k = Some v \<and> map_of ls k = None \<longrightarrow>
            lookup_path merged (p @ [k]) = Some v) \<and>
         (\<forall>k c v. map_of ds k = Some c \<and> map_of ls k = Some v \<and> \<not> isinstance_dict v \<longrightarrow>
            lookup_path merged (p @ [k]) = Some v) \<and>
         (\<forall>k v q. map_of ds k = Some v \<and> map_of ls k = None \<longrightarrow>
            lookup_path merged (p @ k # q) = lookup_path v q)"
proof -
  have m: "merged = merge_tree default_cfg local_cfg config_name"
    using update_config_proj [OF assms(4)] by simp
  have dist: "distinct (map fst ls)"
    using merge_descent [OF assms(1-3), of config_name] by simp
  have at_p: "lookup_path merged p = Some (PDict (items_tree ds ls (path_label config_name p)))"
    using merge_descent [OF assms(1-3), of config_name] by (simp add: m merge_dicts)
  show ?thesis
    by (simp add: lookup_path_append at_p map_of_items_tree [OF dist])
qed

text \<open>
  The theorem below the \<^verbatim>\<open>general\<close> key: \<^verbatim>\<open>retries\<close> is only in the default tree,
  \<^verbatim>\<open>timeout\<close> is a leaf of both.
\<close>

theorem merge_defaults_survive_leaves_override_witness:
  "wf_tree (PDict [(''general'', PDict [(''timeout'', PInt 60)])]) \<and>
   lookup_path
     (PDict [(''general'', PDict [(''timeout'', PInt 30), (''retries'', PInt 2)]),
             (''feature'', PDict [(''threshold'', PInt 5)])])
     [''general''] = Some (PDict [(''timeout'', PInt 30), (''retries'', PInt 2)]) \<and>
   lookup_path (PDict [(''general'', PDict [(''timeout'', PInt 60)])]) [''general'']
     = Some (PDict [(''timeout'', PInt 60)]) \<and>
   update_config
     (PDict [(''general'', PDict [(''timeout'', PInt 30), (''retries'', PInt 2)]),
             (''feature'', PDict [(''threshold'', PInt 5)])])
     (PDict [(''general'', PDict [(''timeout'', PInt 60)])]) ''cfg'' [] =
     (True,
      PDict [(''general'', PDict [(''timeout'', PInt 60), (''retries'', PInt 2)]),
             (''feature'', PDict [(''threshold'', PInt 5)])],
      []) \<and>
   lookup_path
     (PDict [(''general'', PDict [(''timeout'', PInt 60), (''retries'', PInt 2)]),
             (''feature'', PDict [(''threshold'', PInt 5)])])
     ([''general''] @ [''retries'']) = Some (PInt 2) \<and>
   lookup_path
     (PDict [(''general'', PDict [(''timeout'', PInt 60), (''retries'', PInt 2)]),
             (''feature'', PDict [(''threshold'', PInt 5)])])
     ([''general''] @ [''timeout'']) = Some (PInt 60)"
proof -
  let ?D = "PDict [(''general'', PDict [(''timeout'', PInt 30), (''retries'', PInt 2)]),
             (''feature'', PDict [(''threshold'', PInt 5)])]"
  let ?L = "PDict [(''general'', PDict [(''timeout'', PInt 60)])]"
  let ?M = "PDict [(''general'', PDict [(''timeout'', PInt 60), (''retries'', PInt 2)]),
             (''feature'', PDict [(''threshold'', PInt 5)])]"
  have w: "wf_tree ?L" by simp
  have d: "lookup_path ?D [''general''] = Some (PDict [(''timeout'', PInt 30), (''retries'', PInt 2)])"
    by simp
  have l: "lookup_path ?L [''general''] = Some (PDict [(''timeout'', PInt 60)])" by simp
  have u: "update_config ?D ?L ''cfg'' [] = (True, ?M, [])"
    by (simp add: update_config.simps)
  note th = merge_defaults_survive_leaves_override [OF w d l u]
  have a: "lookup_path ?M ([''general''] @ [''retries'']) = Some (PInt 2)"
    using th [THEN conjunct1, rule_format, of "''retries''" "PInt 2"] by simp
  have b: "lookup_path ?M ([''general''] @ [''timeout'']) = Some (PInt 60)"
    using th [THEN conjunct2, THEN conjunct1, rule_format, of "''timeout''" "PInt 30" "PInt 60"]
    by simp
  show ?thesis using w d l u a b by blast
qed

text \<open>
  Claim C4 as stated fails for a key at depth two: with default \<^verbatim>\<open>{a: {b: 1}}\<close> and local
  \<^verbatim>\<open>{a: 5}\<close> the key \<^verbatim>\<open>b\<close> is only in the default tree, and the merged tree \<^verbatim>\<open>{a: 5}\<close> has
  lost it, with a true flag and no issue.
\<close>

theorem default_mapping_replaced_counterexample:
  "lookup_path (PDict [(''a'', PDict [(''b'', PInt 1)])]) [''a'', ''b''] = Some (PInt 1) \<and>
   lookup_path (PDict [(''a'', PInt 5)]) [''a'', ''b''] = None \<and>
   update_config (PDict [(''a'', PDict [(''b'', PInt 1)])]) (PDict [(''a'', PInt 5)]) ''cfg'' [] =
     (True, PDict [(''a'', PInt 5)], []) \<and>
   lookup_path (PDict [(''a'', PInt 5)]) [''a'', ''b''] \<noteq> Some (PInt 1)"
  by (simp add: update_config.simps)



text \<open>
  Claim C2, as amended. Where the merge compares two nodes, that is at the two roots and
  at every path of both trees whose local value is a mapping, nodes of different types make
  the call on them return a false flag, the default node as it was, and the issues collected
  so far with exactly one \<^verbatim>\<open>has different types\<close> message appended, with the label of the
  path: there is no descent. The flag of the whole pass is false, the message stands in its
  issues, the merged tree has the default node at the path, and at the roots the message is
  the only issue. (A local value that is not a mapping replaces the default value under its
  key without any comparison.)
\<close>

theorem kinds_differ_where_compared:
  assumes "wf_tree local_cfg"
    and "lookup_path default_cfg p = Some dp"
    and "lookup_path local_cfg p = Some lp"
    and "p = [] \<or> isinstance_dict lp"
    and "type_of dp \<noteq> type_of lp"
    and "update_config default_cfg local_cfg config_name [] = (ok, merged, issues)"
  shows "(\<forall>acc. update_config dp lp (path_label config_name p) acc =
            (False, dp, acc @ [different_types_msg (path_label config_name p) dp lp])) \<and>
         \<not> ok \<and>
         (\<exists>pre post. issues = pre @ [different_types_msg (path_label config_name p) dp lp] @ post) \<and>
         (p = [] \<longrightarrow> issues = [different_types_msg config_name dp lp]) \<and>
         lookup_path merged p = Some dp"
proof -
  note pr = update_config_proj [OF assms(6)]
  note desc = merge_descent [OF assms(1-4), of config_name]
  have call: "update_config dp lp (path_label config_name p) acc =
      (False, dp, acc @ [different_types_msg (path_label config_name p) dp lp])" for acc
    by (simp add: update_config_acc [of dp lp _ acc] merge_mismatch [OF assms(5)])
  have iss: "\<exists>pre post. issues = pre @ [different_types_msg (path_label config_name p) dp lp] @ post"
    using desc pr by (simp add: merge_mismatch [OF assms(5)])
  then have "issues \<noteq> []" by auto
  then have nok: "\<not> ok" using pr by (simp add: merge_result_iff)
  have root: "issues = [different_types_msg config_name dp lp]" if "p = []"
    using that assms(2,3,5) pr by (simp add: merge_mismatch)
  have keep: "lookup_path merged p = Some dp"
    using desc pr by (simp add: merge_mismatch [OF assms(5)])
  show ?thesis using call nok iss root keep by blast
qed

text \<open>The theorem where the default tree has an integer and the local tree a mapping.\<close>

theorem kinds_differ_where_compared_witness:
  "wf_tree (PDict [(''a'', PDict [(''y'', PInt 1)])]) \<and>
   lookup_path (PDict [(''a'', PInt 5), (''b'', PDict [(''x'', PInt 1)])]) [''a''] = Some (PInt 5) \<and>
   lookup_path (PDict [(''a'', PDict [(''y'', PInt 1)])]) [''a''] = Some (PDict [(''y'', PInt 1)]) \<and>
   isinstance_dict (PDict [(''y'', PInt 1)]) \<and>
   type_of (PInt 5) \<noteq> type_of (PDict [(''y'', PInt 1)]) \<and>
   update_config (PDict [(''a'', PInt 5), (''b'', PDict [(''x'', PInt 1)])])
     (PDict [(''a'', PDict [(''y'', PInt 1)])]) ''cfg'' [] =
     (False, PDict [(''a'', PInt 5), (''b'', PDict [(''x'', PInt 1)])],
      [different_types_msg (path_label ''cfg'' [''a'']) (PInt 5) (PDict [(''y'', PInt 1)])]) \<and>
   lookup_path (PDict [(''a'', PInt 5), (''b'', PDict [(''x'', PInt 1)])]) [''a''] = Some (PInt 5)"
proof -
  let ?D = "PDict [(''a'', PInt 5), (''b'', PDict [(''x'', PInt 1)])]"
  let ?L = "PDict [(''a'', PDict [(''y'', PInt 1)])]"
  have w: "wf_tree ?L" by simp
  have d: "lookup_path ?D [''a''] = Some (PInt 5)" by simp
  have l: "lookup_path ?L [''a''] = Some (PDict [(''y'', PInt 1)])" by simp
  have i: "[''a''] = [] \<or> isinstance_dict (PDict [(''y'', PInt 1)])" by simp
  have t: "type_of (PInt 5) \<noteq> type_of (PDict [(''y'', PInt 1)])" by simp
  have u: "update_config ?D ?L ''cfg'' [] =
      (False, ?D, [different_types_msg (path_label ''cfg'' [''a'']) (PInt 5) (PDict [(''y'', PInt 1)])])"
    by (simp add: update_config.simps)
  from kinds_differ_where_compared [OF w d l i t u]
  have "lookup_path ?D [''a''] = Some (PInt 5)" by blast
  then show ?thesis using w l t u by simp
qed

text \<open>
  Claim C2 as stated fails where the default node is the mapping: default
  \<^verbatim>\<open>{a: {b: 1}}\<close> and local \<^verbatim>\<open>{a: 5}\<close> merge to \<^verbatim>\<open>{a: 5}\<close> with a true flag and no issue.
\<close>

theorem leaf_over_mapping_counterexample:
  "lookup_path (PDict [(''a'', PDict [(''b'', PInt 1)])]) [''a''] = Some (PDict [(''b'', PInt 1)]) \<and>
   lookup_path (PDict [(''a'', PInt 5)]) [''a''] = Some (PInt 5) \<and>
   type_of (PDict [(''b'', PInt 1)]) \<noteq> type_of (PInt 5) \<and>
   update_config (PDict [(''a'', PDict [(''b'', PInt 1)])]) (PDict [(''a'', PInt 5)]) ''cfg'' [] =
     (True, PDict [(''a'', PInt 5)], [])"
  by (simp add: update_config.simps)

section \<open>Properties of loading\<close>

lemma read_config_Returned:
  assumes "read_config e src = (out, Returned c)"
  shows "out = [] \<and> c \<noteq> PNone"
  using assms by (cases src) (auto split: option.splits source_file.splits if_splits)

lemma read_local_Returned:
  assumes "read_local e us = (out, Returned c)"
  shows "out = [] \<and> c \<noteq> PNone"
  using assms read_config_Returned [of e "PStr us" out c]
  by (auto simp: read_local_def split: if_splits)


lemma load_config_after_reads:
  assumes "read_config e (PStr default_source) = (out1, Returned config)"
    and "read_local e user_source = (out2, Returned local_config)"
  shows "load_config e user_source default_source =
     ((if 1 < length (merge_issues config local_config default_source)
       then [problems_report (merge_issues config local_config default_source) default_source user_source]
       else []),
      if \<not> merge_result config local_config default_source then Exited 0
      else finish_load e (merge_tree config local_config default_source))"
proof -
  have o: "out1 = []" "out2 = []"
    using read_config_Returned [OF assms(1)] read_local_Returned [OF assms(2)] by simp_all
  show ?thesis
    unfolding load_config_def assms
    by (simp add: o update_config_acc [of config local_config default_source "[]"])
qed

section \<open>Claims about loading\<close>



text \<open>
  Claim C1, as amended. The load pipeline ends the process with status 0 when the default
  source is empty, when the user source is there and empty, and when the merge returns a
  false flag. When the default source file does not exist or is not parseable, nothing
  catches the error of \<^verbatim>\<open>open\<close> or of the parser: it reaches the caller.
\<close>

theorem load_exit_codes:
  "(map_of (files e) default_source = Some (Document PNone) \<longrightarrow>
      snd (load_config e user_source default_source) = Exited 0) \<and>
   (map_of (files e) default_source = Some (Document config) \<and> config \<noteq> PNone \<and>
    map_of (files e) user_source = Some (Document PNone) \<longrightarrow>
      snd (load_config e user_source default_source) = Exited 0) \<and>
   (read_config e (PStr default_source) = (out1, Returned config) \<and>
    read_local e user_source = (out2, Returned local_config) \<and>
    \<not> fst (update_config config local_config default_source []) \<longrightarrow>
      snd (load_config e user_source default_source) = Exited 0) \<and>
   (map_of (files e) default_source = None \<longrightarrow>
      load_config e user_source default_source = ([], Raised FileNotFoundError)) \<and>
   (map_of (files e) default_source = Some Malformed \<longrightarrow>
      load_config e user_source default_source = ([], Raised YAMLError))"
proof (intro conjI impI)
  assume "map_of (files e) default_source = Some (Document PNone)"
  then show "snd (load_config e user_source default_source) = Exited 0"
    by (simp add: load_config_def)
next
  assume "map_of (files e) default_source = Some (Document config) \<and> config \<noteq> PNone \<and>
    map_of (files e) user_source = Some (Document PNone)"
  then show "snd (load_config e user_source default_source) = Exited 0"
    by (simp add: load_config_def read_local_def)
next
  assume a: "read_config e (PStr default_source) = (out1, Returned config) \<and>
    read_local e user_source = (out2, Returned local_config) \<and>
    \<not> fst (update_config config local_config default_source [])"
  then show "snd (load_config e user_source default_source) = Exited 0"
    using load_config_after_reads [of e default_source out1 config user_source out2 local_config]
    by (simp add: merge_result_def)
next
  assume "map_of (files e) default_source = None"
  then show "load_config e user_source default_source = ([], Raised FileNotFoundError)"
    by (simp add: load_config_def)
next
  assume "map_of (files e) default_source = Some Malformed"
  then show "load_config e user_source default_source = ([], Raised YAMLError)"
    by (simp add: load_config_def)
qed

text \<open>The theorem at one environment for each of its five cases.\<close>

theorem load_exit_codes_witness:
  "map_of (files \<lparr>files = [(''d.yaml'', Document PNone)], cwd = ''/home/u''\<rparr>) ''d.yaml''
     = Some (Document PNone) \<and>
   snd (load_config \<lparr>files = [(''d.yaml'', Document PNone)], cwd = ''/home/u''\<rparr>
     ''u.yaml'' ''d.yaml'') = Exited 0 \<and>
   map_of (files \<lparr>files = [(''d.yaml'', Document (PDict [(''a'', PInt 1)])), (''u.yaml'', Document PNone)],
     cwd = ''/home/u''\<rparr>) ''u.yaml'' = Some (Document PNone) \<and>
   snd (load_config
     \<lparr>files = [(''d.yaml'', Document (PDict [(''a'', PInt 1)])), (''u.yaml'', Document PNone)],
      cwd = ''/home/u''\<rparr> ''u.yaml'' ''d.yaml'') = Exited 0 \<and>
   \<not> fst (update_config (PDict [(''a'', PInt 1)]) (PDict [(''b'', PInt 2)]) ''d.yaml'' []) \<and>
   snd (load_config
     \<lparr>files = [(''d.yaml'', Document (PDict [(''a'', PInt 1)])),
               (''u.yaml'', Document (PDict [(''b'', PInt 2)]))],
      cwd = ''/home/u''\<rparr> ''u.yaml'' ''d.yaml'') = Exited 0 \<and>
   map_of (files \<lparr>files = [], cwd = ''/home/u''\<rparr>) ''d.yaml'' = None \<and>
   load_config \<lparr>files = [], cwd = ''/home/u''\<rparr> ''u.yaml'' ''d.yaml''
     = ([], Raised FileNotFoundError) \<and>
   map_of (files \<lparr>files = [(''d.yaml'', Malformed)], cwd = ''/home/u''\<rparr>) ''d.yaml''
     = Some Malformed \<and>
   load_config \<lparr>files = [(''d.yaml'', Malformed)], cwd = ''/home/u''\<rparr> ''u.yaml'' ''d.yaml''
     = ([], Raised YAMLError)"
proof -
  let ?e1 = "\<lparr>files = [(''d.yaml'', Document PNone)], cwd = ''/home/u''\<rparr>"
  let ?e2 = "\<lparr>files = [(''d.yaml'', Document (PDict [(''a'', PInt 1)])), (''u.yaml'', Document PNone)],
      cwd = ''/home/u''\<rparr>"
  let ?e3 = "\<lparr>files = [(''d.yaml'', Document (PDict [(''a'', PInt 1)])),
               (''u.yaml'', Document (PDict [(''b'', PInt 2)]))], cwd = ''/home/u''\<rparr>"
  let ?e4 = "\<lparr>files = [], cwd = ''/home/u''\<rparr>"
  let ?e5 = "\<lparr>files = [(''d.yaml'', Malformed)], cwd = ''/home/u''\<rparr>"
  have h1: "map_of (files ?e1) ''d.yaml'' = Some (Document PNone)" by simp
  have h2: "map_of (files ?e2) ''d.yaml'' = Some (Document (PDict [(''a'', PInt 1)])) \<and>
      PDict [(''a'', PInt 1)] \<noteq> PNone \<and> map_of (files ?e2) ''u.yaml'' = Some (Document PNone)"
    by simp
  have h3: "read_config ?e3 (PStr ''d.yaml'') = ([], Returned (PDict [(''a'', PInt 1)])) \<and>
      read_local ?e3 ''u.yaml'' = ([], Returned (PDict [(''b'', PInt 2)])) \<and>
      \<not> fst (update_config (PDict [(''a'', PInt 1)]) (PDict [(''b'', PInt 2)]) ''d.yaml'' [])"
    by (simp add: read_local_def update_config.simps)
  have h4: "map_of (files ?e4) ''d.yaml'' = None" by simp
  have h5: "map_of (files ?e5) ''d.yaml'' = Some Malformed" by simp
  have c1: "snd (load_config ?e1 ''u.yaml'' ''d.yaml'') = Exited 0"
    using load_exit_codes [of ?e1 "''d.yaml''" "''u.yaml''", THEN conjunct1] h1 by blast
  have c2: "snd (load_config ?e2 ''u.yaml'' ''d.yaml'') = Exited 0"
    using load_exit_codes [of ?e2 "''d.yaml''" "''u.yaml''" "PDict [(''a'', PInt 1)]",
        THEN conjunct2, THEN conjunct1] h2 by blast
  have c3: "snd (load_config ?e3 ''u.yaml'' ''d.yaml'') = Exited 0"
    using load_exit_codes [of ?e3 "''d.yaml''" "''u.yaml''" "PDict [(''a'', PInt 1)]" "[]"
        "[]" "PDict [(''b'', PInt 2)]", THEN conjunct2, THEN conjunct2, THEN conjunct1] h3 by blast
  have c4: "load_config ?e4 ''u.yaml'' ''d.yaml'' = ([], Raised FileNotFoundError)"
    using load_exit_codes [of ?e4 "''d.yaml''" "''u.yaml''",
        THEN conjunct2, THEN conjunct2, THEN conjunct2, THEN conjunct1] h4 by blast
  have c5: "load_config ?e5 ''u.yaml'' ''d.yaml'' = ([], Raised YAMLError)"
    using load_exit_codes [of ?e5 "''d.yaml''" "''u.yaml''",
        THEN conjunct2, THEN conjunct2, THEN conjunct2, THEN conjunct2] h5 by blast
  show ?thesis using h1 h2 h3 h4 h5 c1 c2 c3 c4 c5 by blast
qed

text \<open>
  Claim C1 as stated fails: without the default file, and with a default file that is not
  YAML, the load raises instead of exiting with status 0.
\<close>

theorem missing_default_source_counterexample:
  "load_config \<lparr>files = [], cwd = ''/home/u''\<rparr> ''configs/config.yaml''
     ''configs/config-default.yaml'' = ([], Raised FileNotFoundError) \<and>
   load_config \<lparr>files = [(''configs/config-default.yaml'', Malformed)], cwd = ''/home/u''\<rparr>
     ''configs/config.yaml'' ''configs/config-default.yaml'' = ([], Raised YAMLError)"
  by (simp add: load_config_def)

text \<open>
  Claim C8, as amended. When the user source file does not exist and the default tree is a
  mapping, the local tree is the empty mapping, the merge with it collects no issue, returns
  a true flag and leaves the default tree as it is, and the load goes on without output.
  (A default tree that is not a mapping differs in type from the empty mapping.)
\<close>

theorem missing_user_source_is_empty_mapping:
  assumes "map_of (files e) user_source = None"
    and "map_of (files e) default_source = Some (Document (PDict ds))"
  shows "read_local e user_source = ([], Returned (PDict [])) \<and>
         update_config (PDict ds) (PDict []) default_source [] = (True, PDict ds, []) \<and>
         load_config e user_source default_source = ([], finish_load e (PDict ds))"
  using assms by (simp add: read_local_def load_config_def update_config.simps)

text \<open>The theorem at the scenario with \<^verbatim>\<open>model.weights_path\<close> and no user file.\<close>

theorem missing_user_source_is_empty_mapping_witness:
  "map_of (files \<lparr>files = [(''d.yaml'', Document (PDict
       [(''general'', PDict [(''working_dir'', PStr ''.''), (''resources_dir'', PStr ''./res'')]),
        (''model'', PDict [(''weights_path'', PStr ''w.bin'')])]))],
     cwd = ''/home/u''\<rparr>) ''u.yaml'' = None \<and>
   load_config \<lparr>files = [(''d.yaml'', Document (PDict
       [(''general'', PDict [(''working_dir'', PStr ''.''), (''resources_dir'', PStr ''./res'')]),
        (''model'', PDict [(''weights_path'', PStr ''w.bin'')])]))],
     cwd = ''/home/u''\<rparr> ''u.yaml'' ''d.yaml'' =
   ([], Returned (PDict
       [(''general'', PDict [(''working_dir'', PStr ''/home/u''), (''resources_dir'', PStr ''./res'')]),
        (''model'', PDict [(''weights_path'', PStr ''/home/u/w.bin'')])]))"
proof -
  let ?ds = "[(''general'', PDict [(''working_dir'', PStr ''.''), (''resources_dir'', PStr ''./res'')]),
        (''model'', PDict [(''weights_path'', PStr ''w.bin'')])]"
  let ?e = "\<lparr>files = [(''d.yaml'', Document (PDict ?ds))], cwd = ''/home/u''\<rparr>"
  have m: "map_of (files ?e) ''u.yaml'' = None" by simp
  have d: "map_of (files ?e) ''d.yaml'' = Some (Document (PDict ?ds))" by simp
  have f: "finish_load ?e (PDict ?ds) = Returned (PDict
       [(''general'', PDict [(''working_dir'', PStr ''/home/u''), (''resources_dir'', PStr ''./res'')]),
        (''model'', PDict [(''weights_path'', PStr ''/home/u/w.bin'')])])"
    by (simp add: finish_load_def absolute_def parse_path_def path_str_def
        set_absolute_paths.simps join_value_def strip_def is_space_def)
  show ?thesis
    using m missing_user_source_is_empty_mapping [OF m d] f by simp
qed

text \<open>
  Claim C8 as stated fails for a default document that is a sequence: the merge with the
  empty mapping records an issue and the process exits.
\<close>

theorem missing_user_source_counterexample:
  "map_of (files \<lparr>files = [(''d.yaml'', Document (PList [PInt 1]))], cwd = ''/home/u''\<rparr>) ''u.yaml''
     = None \<and>
   update_config (PList [PInt 1]) (PDict []) ''d.yaml'' [] =
     (False, PList [PInt 1], [different_types_msg ''d.yaml'' (PList [PInt 1]) (PDict [])]) \<and>
   load_config \<lparr>files = [(''d.yaml'', Document (PList [PInt 1]))], cwd = ''/home/u''\<rparr>
     ''u.yaml'' ''d.yaml'' = ([], Exited 0)"
  by (simp add: load_config_def read_local_def update_config.simps)

section \<open>Properties of paths and of the resolution\<close>

lemma dict_set_append:
  "k \<notin> fst ` set pre \<Longrightarrow> dict_set k s (pre @ (k, v) # rs) = pre @ (k, s) # rs"
  by (induction pre) auto

lemma set_resources_spec:
  assumes "distinct (map fst (pre @ rest))"
  shows "set_resources rd (pre @ rest) rest =
     (case spec_join_all rd rest of Inl e \<Rightarrow> Inl e | Inr rest' \<Rightarrow> Inr (pre @ rest'))"
  using assms
proof (induction rest arbitrary: pre)
  case Nil
  show ?case by simp
next
  case (Cons kv rest)
  obtain k v where kv: "kv = (k, v)" by (cases kv)
  have nk: "k \<notin> fst ` set pre" and d: "distinct (map fst ((pre @ [(k, x)]) @ rest))" for x
    using Cons.prems by (auto simp: kv)
  have step: "set_resources rd (pre @ (k, x) # rest) rest =
      (case spec_join_all rd rest of Inl e \<Rightarrow> Inl e | Inr rest' \<Rightarrow> Inr (pre @ (k, x) # rest'))" for x
    using Cons.IH [OF d [of x]] by (simp split: sum.splits)
  show ?case
    by (simp add: kv dict_set_append [OF nk] step split: sum.splits)
qed

lemma set_paths_items_spec:
  assumes "distinct (map fst (pre @ rest))"
    and "\<And>k sub. (k, PDict sub) \<in> set rest \<Longrightarrow>
       distinct (map fst sub) \<and>
       set_absolute_paths wd rd (PDict sub) =
         (case spec_resolve_items wd rd sub of Inl e \<Rightarrow> Inl e | Inr sub' \<Rightarrow> Inr (PDict sub'))"
  shows "set_paths_items wd rd (pre @ rest) rest =
     (case spec_resolve_items wd rd rest of Inl e \<Rightarrow> Inl e | Inr rest' \<Rightarrow> Inr (pre @ rest'))"
  using assms
proof (induction rest arbitrary: pre)
  case Nil
  show ?case by simp
next
  case (Cons kv rest)
  obtain k v where kv: "kv = (k, v)" by (cases kv)
  have nk: "k \<notin> fst ` set pre" and d: "distinct (map fst ((pre @ [(k, x)]) @ rest))" for x
    using Cons.prems(1) by (auto simp: kv)
  have step: "set_paths_items wd rd (pre @ (k, x) # rest) rest =
      (case spec_resolve_items wd rd rest of Inl e \<Rightarrow> Inl e | Inr rest' \<Rightarrow> Inr (pre @ (k, x) # rest'))" for x
  proof -
    have "set_paths_items wd rd ((pre @ [(k, x)]) @ rest) rest =
      (case spec_resolve_items wd rd rest of Inl e \<Rightarrow> Inl e | Inr rest' \<Rightarrow> Inr ((pre @ [(k, x)]) @ rest'))"
      by (rule Cons.IH [OF d [of x]]) (rule Cons.prems(2), erule list.set_intros(2))
    then show ?thesis by (simp split: sum.splits)
  qed
  have sub: "distinct (map fst sub) \<and> set_absolute_paths wd rd (PDict sub) =
         (case spec_resolve_items wd rd sub of Inl e \<Rightarrow> Inl e | Inr sub' \<Rightarrow> Inr (PDict sub'))"
    if "v = PDict sub" for sub
    using Cons.prems(2) [of k sub] that by (simp add: kv)
  show ?case
  proof (cases v)
    case (PDict sub)
    show ?thesis
      using sub [OF PDict] set_resources_spec [of "[]" sub rd]
      by (simp add: kv PDict dict_set_append [OF nk] step spec_resolve_value.simps split: sum.splits)
  qed (simp_all add: kv dict_set_append [OF nk] step spec_resolve_value.simps split: sum.splits)
qed

lemma resolve_refines:
  "wf_tree v \<Longrightarrow>
   set_absolute_paths wd rd v =
     (case v of
        PDict items \<Rightarrow>
          (case spec_resolve_items wd rd items of
             Inl e \<Rightarrow> Inl e | Inr items' \<Rightarrow> Inr (PDict items'))
      | _ \<Rightarrow> Inl AttributeError)"
proof (induction v)
  case (PDict items)
  have "set_paths_items wd rd ([] @ items) items =
     (case spec_resolve_items wd rd items of
        Inl e \<Rightarrow> Inl e | Inr rest' \<Rightarrow> Inr ([] @ rest'))"
  proof (rule set_paths_items_spec)
    show "distinct (map fst ([] @ items))" using PDict.prems by simp
  next
    fix k sub assume m: "(k, PDict sub) \<in> set items"
    have w: "wf_tree (PDict sub)" using PDict.prems m by (rule wf_tree_item)
    have "set_absolute_paths wd rd (PDict sub) =
         (case spec_resolve_items wd rd sub of
            Inl e \<Rightarrow> Inl e | Inr sub' \<Rightarrow> Inr (PDict sub'))"
      using PDict.IH [of "(k, PDict sub)" "PDict sub"] m w by simp
    with w show "distinct (map fst sub) \<and>
       set_absolute_paths wd rd (PDict sub) =
         (case spec_resolve_items wd rd sub of
            Inl e \<Rightarrow> Inl e | Inr sub' \<Rightarrow> Inr (PDict sub'))"
      by simp
  qed
  then show ?case
    by (simp add: set_absolute_paths.simps split: sum.splits)
qed (simp_all add: set_absolute_paths.simps)

lemma split_slash_not_Nil: "split_slash s \<noteq> []"
  by (induction s) (auto split: list.splits)

lemma split_slash_free: "CHR ''/'' \<notin> set c \<Longrightarrow> split_slash c = [c]"
  by (induction c) auto

lemma split_slash_parts_free: "c \<in> set (split_slash s) \<Longrightarrow> CHR ''/'' \<notin> set c"
proof (induction s arbitrary: c)
  case Nil
  then show ?case by simp
next
  case (Cons a s)
  then show ?case
    by (cases "split_slash s") (auto split: if_splits)
qed

lemma split_slash_append:
  "split_slash (a @ CHR ''/'' # b) = split_slash a @ split_slash b"
proof (induction a)
  case Nil
  show ?case by simp
next
  case (Cons c a)
  show ?case
    using split_slash_not_Nil [of a]
    by (cases "split_slash a") (auto simp: Cons.IH)
qed

lemma split_join_slash:
  assumes "ps \<noteq> []" "\<forall>c \<in> set ps. CHR ''/'' \<notin> set c"
  shows "split_slash (join_slash ps) = ps"
  using assms
proof (induction ps rule: join_slash.induct)
  case 1
  then show ?case by simp
next
  case (2 x)
  then show ?case by (simp add: split_slash_free)
next
  case (3 x y ys)
  then show ?case by (simp add: split_slash_append split_slash_free)
qed

lemma join_slash_hd:
  assumes "ps \<noteq> []" "\<forall>c \<in> set ps. c \<noteq> [] \<and> CHR ''/'' \<notin> set c"
  shows "\<exists>c cs. join_slash ps = c # cs \<and> c \<noteq> CHR ''/''"
  using assms
proof (cases ps rule: join_slash.cases)
  case 1
  with assms show ?thesis by simp
next
  case (2 x)
  with assms show ?thesis by (cases x) auto
next
  case (3 x y ys)
  with assms show ?thesis by (cases x) auto
qed

lemma parse_path_valid: "valid_path (parse_path s)"
  by (auto simp: valid_path_def parse_path_def list_all_iff dest: split_slash_parts_free)

lemma parse_path_str:
  assumes "valid_path p"
  shows "parse_path (path_str p) = p"
proof -
  have ok: "\<forall>c \<in> set (parts p). c \<noteq> [] \<and> c \<noteq> ''.'' \<and> CHR ''/'' \<notin> set c"
    using assms by (simp add: valid_path_def list_all_iff)
  have keep: "filter (\<lambda>x. x \<noteq> [] \<and> x \<noteq> ''.'') (parts p) = parts p"
    using ok by (simp add: filter_id_conv)
  have r: "root p = [] \<or> root p = ''/'' \<or> root p = ''//''"
    using assms by (simp add: valid_path_def)
  show ?thesis
  proof (cases "parts p = []")
    case True
    with r show ?thesis
      by (auto simp: path_str_def parse_path_def intro!: ppath.equality)
  next
    case False
    have sj: "split_slash (join_slash (parts p)) = parts p"
      using False ok by (simp add: split_join_slash)
    obtain c cs where hd: "join_slash (parts p) = c # cs" "c \<noteq> CHR ''/''"
      using join_slash_hd [OF False] ok by blast
    have s1: "split_slash (CHR ''/'' # join_slash (parts p)) = [] # parts p"
      using sj by simp
    have s2: "split_slash (CHR ''/'' # CHR ''/'' # join_slash (parts p)) = [] # [] # parts p"
      using sj by simp
    from r show ?thesis
    proof (elim disjE)
      assume "root p = []"
      then show ?thesis
        using False hd sj keep by (auto simp: path_str_def parse_path_def intro!: ppath.equality)
    next
      assume "root p = ''/''"
      then show ?thesis
        using False hd s1 keep by (auto simp: path_str_def parse_path_def intro!: ppath.equality)
    next
      assume "root p = ''//''"
      then show ?thesis
        using False hd s2 keep by (auto simp: path_str_def parse_path_def intro!: ppath.equality)
    qed
  qed
qed

lemma joinpath_valid:
  assumes "valid_path base" "joinpath base v = Inr p"
  shows "valid_path p"
proof (cases v)
  case (PStr s)
  have q: "valid_path (parse_path s)" by (rule parse_path_valid)
  show ?thesis
    using assms q by (auto simp: PStr Let_def valid_path_def split: if_splits)
qed (use assms in simp_all)

lemma joinpath_absolute:
  assumes "root base \<noteq> []" "joinpath base v = Inr p"
  shows "root p \<noteq> []"
  using assms by (cases v) (auto simp: Let_def split: if_splits)

lemma join_value_again:
  assumes "valid_path base" "root base \<noteq> []" "join_value base v = Inr s"
  shows "join_value base s = Inr s \<and> (\<exists>t. s = PStr t)"
proof -
  from assms(3) obtain p where p: "joinpath base v = Inr p" and s: "s = PStr (path_str p)"
    by (auto simp: join_value_def split: sum.splits)
  have "valid_path p" "root p \<noteq> []"
    using joinpath_valid [OF assms(1) p] joinpath_absolute [OF assms(2) p] by simp_all
  then show ?thesis
    by (simp add: s join_value_def parse_path_str Let_def)
qed

lemma absolute_valid:
  "valid_path p \<Longrightarrow> valid_path (absolute dir p)"
  using parse_path_valid [of dir] by (auto simp: absolute_def valid_path_def)

lemma absolute_root:
  "take 1 dir = ''/'' \<Longrightarrow> root (absolute dir p) \<noteq> []"
  by (auto simp: absolute_def parse_path_def)

lemma spec_join_all_again:
  assumes "valid_path rd" "root rd \<noteq> []" "spec_join_all rd sub = Inr sub'"
  shows "spec_join_all rd sub' = Inr sub' \<and> map fst sub' = map fst sub \<and>
    list_all (\<lambda>kv. wf_tree (snd kv)) sub'"
  using assms(3)
proof (induction sub arbitrary: sub')
  case Nil
  then show ?case by simp
next
  case (Cons kv sub)
  obtain k v where kv: "kv = (k, v)" by (cases kv)
  from Cons.prems obtain s rest' where s: "join_value rd v = Inr s"
    and r: "spec_join_all rd sub = Inr rest'" and e: "sub' = (k, s) # rest'"
    by (auto simp: kv split: sum.splits)
  from join_value_again [OF assms(1,2) s] obtain t where "join_value rd s = Inr s" "s = PStr t"
    by blast
  with Cons.IH [OF r] show ?case by (simp add: e kv)
qed

lemma spec_items_again:
  assumes "\<And>k v v'. (k, v) \<in> set items \<Longrightarrow> spec_resolve_value wd rd k v = Inr v' \<Longrightarrow>
      wf_tree v \<Longrightarrow> spec_resolve_value wd rd k v' = Inr v' \<and> wf_tree v'"
    and "spec_resolve_items wd rd items = Inr items'"
    and "list_all (\<lambda>kv. wf_tree (snd kv)) items"
  shows "spec_resolve_items wd rd items' = Inr items' \<and> map fst items' = map fst items \<and>
      list_all (\<lambda>kv. wf_tree (snd kv)) items'"
  using assms
proof (induction items arbitrary: items')
  case Nil
  then show ?case by simp
next
  case (Cons kv items)
  obtain k v where kv: "kv = (k, v)" by (cases kv)
  from Cons.prems(2) obtain value' rest' where v: "spec_resolve_value wd rd k v = Inr value'"
    and r: "spec_resolve_items wd rd items = Inr rest'"
    and e: "items' = (k, value') # rest'"
    by (auto simp: kv split: sum.splits)
  have wv: "wf_tree v" and wr: "list_all (\<lambda>kv. wf_tree (snd kv)) items"
    using Cons.prems(3) by (simp_all add: kv)
  have a: "spec_resolve_value wd rd k value' = Inr value' \<and> wf_tree value'"
    by (rule Cons.prems(1) [of k v]) (simp_all add: kv v wv)
  have b: "spec_resolve_items wd rd rest' = Inr rest' \<and> map fst rest' = map fst items \<and>
      list_all (\<lambda>kv. wf_tree (snd kv)) rest'"
  proof (rule Cons.IH [OF _ r wr])
    fix k v v' assume "(k, v) \<in> set items" "spec_resolve_value wd rd k v = Inr v'" "wf_tree v"
    then show "spec_resolve_value wd rd k v' = Inr v' \<and> wf_tree v'"
      by (intro Cons.prems(1) [of k v]) simp_all
  qed
  from a b show ?case by (simp add: e kv)
qed

lemma spec_scalar_again:
  assumes "valid_path wd" "root wd \<noteq> []" "valid_path rd" "root rd \<noteq> []"
    and "\<not> isinstance_dict v" "spec_resolve_value wd rd key v = Inr v'" "wf_tree v"
  shows "spec_resolve_value wd rd key v' = Inr v' \<and> wf_tree v'"
proof (cases "v = PNone")
  case True
  with assms(6) show ?thesis by (simp add: spec_resolve_value.simps)
next
  case False
  consider (p) "contains ''path'' key" | (l) "\<not> contains ''path'' key" "contains ''location'' key"
    | (n) "\<not> contains ''path'' key" "\<not> contains ''location'' key" by blast
  then show ?thesis
  proof cases
    case p
    then have "join_value wd v = Inr v'"
      using assms(5,6) False by (cases v) (simp_all add: spec_resolve_value.simps)
    from join_value_again [OF assms(1,2) this] p show ?thesis
      by (auto simp: spec_resolve_value.simps)
  next
    case l
    then have "join_value rd v = Inr v'"
      using assms(5,6) False by (cases v) (simp_all add: spec_resolve_value.simps)
    from join_value_again [OF assms(3,4) this] l show ?thesis
      by (auto simp: spec_resolve_value.simps)
  next
    case n
    then have "v' = v"
      using assms(5,6) False by (cases v) (simp_all add: spec_resolve_value.simps)
    with assms(6,7) show ?thesis by simp
  qed
qed

lemma spec_value_again:
  assumes "valid_path wd" "root wd \<noteq> []" "valid_path rd" "root rd \<noteq> []"
  shows "spec_resolve_value wd rd key v = Inr v' \<Longrightarrow> wf_tree v \<Longrightarrow>
      spec_resolve_value wd rd key v' = Inr v' \<and> wf_tree v'"
proof (induction v arbitrary: key v')
  case (PDict sub)
  show ?case
  proof (cases "strip key = ''resources''")
    case True
    from PDict.prems(1) obtain sub' where j: "spec_join_all rd sub = Inr sub'"
      and v': "v' = PDict sub'"
      by (auto simp: spec_resolve_value.simps True split: sum.splits)
    from spec_join_all_again [OF assms(3,4) j] PDict.prems(2) show ?thesis
      by (simp add: spec_resolve_value.simps v' True)
  next
    case False
    from PDict.prems(1) obtain sub' where j: "spec_resolve_items wd rd sub = Inr sub'"
      and v': "v' = PDict sub'"
      by (auto simp: spec_resolve_value.simps False split: sum.splits)
    have "spec_resolve_items wd rd sub' = Inr sub' \<and> map fst sub' = map fst sub \<and>
        list_all (\<lambda>kv. wf_tree (snd kv)) sub'"
    proof (rule spec_items_again [OF _ j])
      show "list_all (\<lambda>kv. wf_tree (snd kv)) sub" using PDict.prems(2) by simp
    next
      fix k v v' assume "(k, v) \<in> set sub" "spec_resolve_value wd rd k v = Inr v'" "wf_tree v"
      then show "spec_resolve_value wd rd k v' = Inr v' \<and> wf_tree v'"
        using PDict.IH [of "(k, v)" v k v'] by simp
    qed
    with PDict.prems(2) show ?thesis
      by (simp add: spec_resolve_value.simps v' False)
  qed
next
  case PNone
  then show ?case using spec_scalar_again [OF assms, of PNone key v'] by simp
next
  case (PBool b)
  then show ?case using spec_scalar_again [OF assms, of "PBool b" key v'] by simp
next
  case (PInt i)
  then show ?case using spec_scalar_again [OF assms, of "PInt i" key v'] by simp
next
  case (PFloat f)
  then show ?case using spec_scalar_again [OF assms, of "PFloat f" key v'] by simp
next
  case (PStr s)
  then show ?case using spec_scalar_again [OF assms, of "PStr s" key v'] by simp
next
  case (PList xs)
  then show ?case using spec_scalar_again [OF assms, of "PList xs" key v'] by simp
qed

section \<open>Claims about the resolution\<close>



text \<open>
  Claim C3, as amended. With the two base directories made absolute against the current
  directory, as the loader makes them, a second pass over a tree that one pass has resolved
  leaves it as it is: joining a base to an absolute path gives that path, and its string is
  the value that was there.
\<close>

theorem resolve_twice_same:
  assumes "take 1 dir = ''/''"
    and "wf_tree d"
    and "set_absolute_paths (absolute dir (parse_path w)) (absolute dir (parse_path r)) d = Inr d1"
  shows "set_absolute_paths (absolute dir (parse_path w)) (absolute dir (parse_path r)) d1 = Inr d1"
proof -
  let ?wd = "absolute dir (parse_path w)" and ?rd = "absolute dir (parse_path r)"
  have v: "valid_path ?wd" "root ?wd \<noteq> []" "valid_path ?rd" "root ?rd \<noteq> []"
    using assms(1) by (simp_all add: absolute_valid parse_path_valid absolute_root)
  from assms(3) obtain items where d: "d = PDict items"
    by (cases d) (simp_all add: set_absolute_paths.simps)
  from assms(3) obtain items' where s: "spec_resolve_items ?wd ?rd items = Inr items'"
    and d1: "d1 = PDict items'"
    using resolve_refines [OF assms(2), of ?wd ?rd] by (auto simp: d split: sum.splits)
  have "spec_resolve_items ?wd ?rd items' = Inr items' \<and> map fst items' = map fst items \<and>
      list_all (\<lambda>kv. wf_tree (snd kv)) items'"
  proof (rule spec_items_again [OF _ s])
    show "list_all (\<lambda>kv. wf_tree (snd kv)) items" using assms(2) d by simp
  next
    fix k v v' assume "(k, v) \<in> set items" "spec_resolve_value ?wd ?rd k v = Inr v'" "wf_tree v"
    then show "spec_resolve_value ?wd ?rd k v' = Inr v' \<and> wf_tree v'"
      using spec_value_again [OF v] by blast
  qed
  moreover from this have "wf_tree d1" using assms(2) by (simp add: d d1)
  ultimately show ?thesis
    using resolve_refines [of d1 ?wd ?rd] by (simp add: d1)
qed

text \<open>The theorem at the two scenarios with \<^verbatim>\<open>weights_path\<close> and \<^verbatim>\<open>resources\<close>.\<close>

theorem resolve_twice_same_witness:
  "take 1 ''/home/u'' = ''/'' \<and>
   wf_tree (PDict [(''model'', PDict [(''weights_path'', PStr ''w.bin'')]),
                   (''resources'', PDict [(''icon'', PStr ''logo.png'')])]) \<and>
   set_absolute_paths (absolute ''/home/u'' (parse_path ''.'')) (absolute ''/home/u'' (parse_path ''./res''))
     (PDict [(''model'', PDict [(''weights_path'', PStr ''w.bin'')]),
             (''resources'', PDict [(''icon'', PStr ''logo.png'')])]) =
   Inr (PDict [(''model'', PDict [(''weights_path'', PStr ''/home/u/w.bin'')]),
               (''resources'', PDict [(''icon'', PStr ''/home/u/res/logo.png'')])]) \<and>
   set_absolute_paths (absolute ''/home/u'' (parse_path ''.'')) (absolute ''/home/u'' (parse_path ''./res''))
     (PDict [(''model'', PDict [(''weights_path'', PStr ''/home/u/w.bin'')]),
             (''resources'', PDict [(''icon'', PStr ''/home/u/res/logo.png'')])]) =
   Inr (PDict [(''model'', PDict [(''weights_path'', PStr ''/home/u/w.bin'')]),
               (''resources'', PDict [(''icon'', PStr ''/home/u/res/logo.png'')])])"
proof -
  let ?d = "PDict [(''model'', PDict [(''weights_path'', PStr ''w.bin'')]),
             (''resources'', PDict [(''icon'', PStr ''logo.png'')])]"
  let ?d1 = "PDict [(''model'', PDict [(''weights_path'', PStr ''/home/u/w.bin'')]),
               (''resources'', PDict [(''icon'', PStr ''/home/u/res/logo.png'')])]"
  have t: "take 1 ''/home/u'' = ''/''" by simp
  have w: "wf_tree ?d" by simp
  have f: "set_absolute_paths (absolute ''/home/u'' (parse_path ''.''))
      (absolute ''/home/u'' (parse_path ''./res'')) ?d = Inr ?d1"
    by (simp add: set_absolute_paths.simps absolute_def parse_path_def path_str_def join_value_def
        strip_def is_space_def)
  show ?thesis
    using t w f resolve_twice_same [OF t w f] by simp
qed

text \<open>
  Claim C3 as stated fails: \<^verbatim>\<open>/home/u\<close> joined with \<^verbatim>\<open>/home/u/w.bin\<close> is \<^verbatim>\<open>/home/u/w.bin\<close>,
  and the second pass returns the tree of the first.
\<close>

theorem resolve_twice_counterexample:
  "join_value (absolute ''/home/u'' (parse_path ''.'')) (PStr ''/home/u/w.bin'')
     = Inr (PStr ''/home/u/w.bin'') \<and>
   set_absolute_paths (absolute ''/home/u'' (parse_path ''.'')) (absolute ''/home/u'' (parse_path ''./res''))
     (PDict [(''model'', PDict [(''weights_path'', PStr ''w.bin'')])]) =
   Inr (PDict [(''model'', PDict [(''weights_path'', PStr ''/home/u/w.bin'')])]) \<and>
   set_absolute_paths (absolute ''/home/u'' (parse_path ''.'')) (absolute ''/home/u'' (parse_path ''./res''))
     (PDict [(''model'', PDict [(''weights_path'', PStr ''/home/u/w.bin'')])]) =
   Inr (PDict [(''model'', PDict [(''weights_path'', PStr ''/home/u/w.bin'')])])"
  by (simp add: set_absolute_paths.simps absolute_def parse_path_def path_str_def join_value_def
      strip_def is_space_def)

section \<open>Properties of the store\<close>

lemma map_of_dict_update:
  "distinct (map fst other) \<Longrightarrow> map_of (dict_update d other) = map_of d ++ map_of other"
proof (induction other arbitrary: d)
  case Nil
  show ?case by simp
next
  case (Cons kv other)
  obtain k v where kv: "kv = (k, v)" by (cases kv)
  have "map_of other k = None" using Cons.prems by (auto simp: kv map_of_eq_None_iff)
  then show ?case
    using Cons.prems
    by (auto simp: kv Cons.IH map_of_dict_set fun_eq_iff map_add_def split: option.splits)
qed

lemma get_part_loaded:
  assumes "list_all (\<lambda>kb. snd kb < fresh st) (sections st)"
    and "map_of (sections st) name = Some a"
    and "heap st a = PNone \<and> sec = [] \<or> heap st a = PDict sec"
    and "map_of (sections st) ''general'' = Some g"
    and "heap st g = PDict general"
  shows "get_part st name =
     Inr (fresh st, st\<lparr>heap := (heap st)(fresh st := PDict (dict_update sec general)),
                         fresh := Suc (fresh st)\<rparr>)"
proof -
  have "g < fresh st"
    using assms(1) map_of_SomeD [OF assms(4)] by (auto simp: list_all_iff)
  then have g: "g \<noteq> fresh st" by simp
  from assms(3) show ?thesis
    using assms(2,4,5) g
    by (auto simp: get_part_def getitem_def alloc_def deepcopy_def)
qed

lemma dict_set_list_all:
  "P (k, x) \<Longrightarrow> list_all P d \<Longrightarrow> list_all P (dict_set k x d)"
  by (induction d) auto

lemma dict_set_fst_image:
  "fst ` set (dict_set k x d) = insert k (fst ` set d)"
  by (simp add: dom_map_of_conv_image_fst [symmetric] map_of_dict_set)

lemma set_sections_effect:
  assumes "distinct (map fst items)"
    and "fst ` set items \<inter> fst ` set (sections st) = {}"
    and "list_all (\<lambda>kb. snd kb < fresh st) (sections st)"
  shows "list_all (\<lambda>kb. snd kb < fresh (set_sections items st)) (sections (set_sections items st)) \<and>
    fresh st \<le> fresh (set_sections items st) \<and>
    (\<forall>b < fresh st. heap (set_sections items st) b = heap st b) \<and>
    (\<forall>k a. map_of (sections (set_sections items st)) k = Some a \<longrightarrow>
       (if k \<in> fst ` set items then map_of items k = Some (heap (set_sections items st) a)
        else map_of (sections st) k = Some a))"
  using assms
proof (induction items arbitrary: st)
  case Nil
  then show ?case by simp
next
  case (Cons kv items)
  obtain k v where kv: "kv = (k, v)" by (cases kv)
  let ?st1 = "st\<lparr>heap := (heap st)(fresh st := v), fresh := Suc (fresh st),
      sections := dict_set k (fresh st) (sections st)\<rparr>"
  let ?st' = "set_sections items ?st1"
  have step: "set_sections (kv # items) st = ?st'"
    by (simp add: kv alloc_def)
  have d: "distinct (map fst items)" and k: "k \<notin> fst ` set items"
    using Cons.prems(1) by (auto simp: kv)
  have knew: "k \<notin> fst ` set (sections st)"
    using Cons.prems(2) by (auto simp: kv)
  have disj: "fst ` set items \<inter> fst ` set (sections ?st1) = {}"
    using Cons.prems(2) k by (auto simp: kv dict_set_fst_image)
  have lt0: "list_all (\<lambda>kb. snd kb < Suc (fresh st)) (sections st)"
    using Cons.prems(3) by (auto simp: list_all_iff)
  have lt: "list_all (\<lambda>kb. snd kb < fresh ?st1) (sections ?st1)"
    using dict_set_list_all [of "\<lambda>kb. snd kb < Suc (fresh st)" k "fresh st" "sections st"] lt0
    by simp
  note IH = Cons.IH [OF d disj lt]
  have a: "list_all (\<lambda>kb. snd kb < fresh ?st') (sections ?st')" using IH by blast
  have b: "fresh st \<le> fresh ?st'" using IH by simp
  have IH3: "heap ?st' b = (if b = fresh st then v else heap st b)" if "b < Suc (fresh st)" for b
    using IH that by simp
  have IH4: "if k' \<in> fst ` set items then map_of items k' = Some (heap ?st' a)
      else map_of (dict_set k (fresh st) (sections st)) k' = Some a"
    if "map_of (sections ?st') k' = Some a" for k' a
  proof -
    have "if k' \<in> fst ` set items then map_of items k' = Some (heap ?st' a)
      else map_of (sections ?st1) k' = Some a"
      by (rule IH [THEN conjunct2, THEN conjunct2, THEN conjunct2, rule_format, OF that])
    then show ?thesis by (cases "k' \<in> fst ` set items") simp_all
  qed
  have c: "\<forall>b < fresh st. heap ?st' b = heap st b" by (simp add: IH3)
  have e: "map_of (kv # items) k' = Some (heap ?st' a)"
    if m: "map_of (sections ?st') k' = Some a" and i: "k' \<in> fst ` set (kv # items)" for k' a
  proof (cases "k' \<in> fst ` set items")
    case True
    then have "map_of items k' = Some (heap ?st' a)" using IH4 [OF m] by simp
    moreover have "k' \<noteq> k" using True k by auto
    ultimately show ?thesis by (simp add: kv)
  next
    case False
    then have k': "k' = k" using i by (simp add: kv)
    have "map_of (dict_set k (fresh st) (sections st)) k' = Some a" using IH4 [OF m] False by simp
    then have "a = fresh st" by (simp add: k' map_of_dict_set)
    moreover have "heap ?st' (fresh st) = v" by (simp add: IH3)
    ultimately show ?thesis by (simp add: kv k')
  qed
  have f: "map_of (sections st) k' = Some a"
    if m: "map_of (sections ?st') k' = Some a" and i: "k' \<notin> fst ` set (kv # items)" for k' a
  proof -
    have n: "k' \<notin> fst ` set items" "k' \<noteq> k" using i by (auto simp: kv)
    then have "map_of (dict_set k (fresh st) (sections st)) k' = Some a" using IH4 [OF m] by simp
    then show ?thesis using n(2) by (simp add: map_of_dict_set)
  qed
  show ?case
    unfolding step
  proof (intro conjI allI impI)
    fix k' a' assume "map_of (sections ?st') k' = Some a'"
    then show "if k' \<in> fst ` set (kv # items) then map_of (kv # items) k' = Some (heap ?st' a')
        else map_of (sections st) k' = Some a'"
      using e [of k' a'] f [of k' a'] by simp
  qed (use a b c in simp_all)
qed

lemma items_tree_wf:
  assumes "\<And>k v d n. (k, v) \<in> set ls \<Longrightarrow> wf_tree d \<Longrightarrow> wf_tree (merge_tree d v n)"
    and "list_all (\<lambda>kv. wf_tree (snd kv)) ls"
    and "list_all (\<lambda>kv. wf_tree (snd kv)) ds"
  shows "list_all (\<lambda>kv. wf_tree (snd kv)) (items_tree ds ls n)"
  using assms
proof (induction ls arbitrary: ds)
  case Nil
  then show ?case by (simp add: items_Nil)
next
  case (Cons kv ls)
  obtain k v where kv: "kv = (k, v)" by (cases kv)
  have wv: "wf_tree v" and wl: "list_all (\<lambda>kv. wf_tree (snd kv)) ls"
    using Cons.prems(2) by (simp_all add: kv)
  have IH: "list_all (\<lambda>kv. wf_tree (snd kv)) (items_tree ds' ls n)"
    if "list_all (\<lambda>kv. wf_tree (snd kv)) ds'" for ds'
    by (rule Cons.IH [OF _ wl that]) (rule Cons.prems(1), erule list.set_intros(2))
  show ?case
  proof (cases "map_of ds k")
    case None
    then show ?thesis by (simp add: kv items_Cons_None IH Cons.prems(3))
  next
    case (Some c)
    have wc: "wf_tree c"
      using map_of_SomeD [OF Some] Cons.prems(3) by (auto simp: list_all_iff)
    have wm: "wf_tree (merge_tree c v (new_str n k))"
      by (rule Cons.prems(1) [of k]) (simp_all add: kv wc)
    show ?thesis
    proof (cases "isinstance_dict v")
      case True
      have "list_all (\<lambda>kv. wf_tree (snd kv)) (dict_set k (merge_tree c v (new_str n k)) ds)"
        by (rule dict_set_list_all) (simp_all add: wm Cons.prems(3))
      then show ?thesis by (simp add: kv items_Cons_dict [OF Some True] IH)
    next
      case False
      have "list_all (\<lambda>kv. wf_tree (snd kv)) (dict_set k v ds)"
        by (rule dict_set_list_all) (simp_all add: wv Cons.prems(3))
      then show ?thesis by (simp add: kv items_Cons_leaf [OF Some False] IH)
    qed
  qed
qed

lemma merge_tree_wf: "wf_tree l \<Longrightarrow> wf_tree d \<Longrightarrow> wf_tree (merge_tree d l n)"
proof (induction l arbitrary: d n)
  case (PDict ls)
  show ?case
  proof (cases "type_of d = TDict")
    case False
    then show ?thesis using PDict.prems(2) by (simp add: merge_mismatch)
  next
    case True
    then obtain ds where d: "d = PDict ds" by (cases d) simp_all
    have "list_all (\<lambda>kv. wf_tree (snd kv)) (items_tree ds ls n)"
    proof (rule items_tree_wf)
      fix k v d n assume m: "(k, v) \<in> set ls" and w: "wf_tree d"
      have "wf_tree v" using PDict.prems(1) m by (rule wf_tree_item)
      then show "wf_tree (merge_tree d v n)"
        using PDict.IH [of "(k, v)" v d n] m w by simp
    qed (use PDict.prems d in simp_all)
    then show ?thesis
      using PDict.prems(2) by (simp add: d merge_dicts items_tree_keys)
  qed
next
  case PNone
  then show ?case by (cases "type_of d = TNone") (simp_all add: merge_mismatch merge_leaf)
next
  case (PBool b)
  then show ?case by (cases "type_of d = TBool") (simp_all add: merge_mismatch merge_leaf)
next
  case (PInt i)
  then show ?case by (cases "type_of d = TInt") (simp_all add: merge_mismatch merge_leaf)
next
  case (PFloat f)
  then show ?case by (cases "type_of d = TFloat") (simp_all add: merge_mismatch merge_leaf)
next
  case (PStr s)
  then show ?case by (cases "type_of d = TStr") (simp_all add: merge_mismatch merge_leaf)
next
  case (PList xs)
  then show ?case by (cases "type_of d = TList") (simp_all add: merge_mismatch merge_leaf)
qed

lemma join_value_PStr: "join_value b v = Inr s \<Longrightarrow> \<exists>t. s = PStr t"
  by (auto simp: join_value_def split: sum.splits)

lemma spec_join_all_wf:
  "spec_join_all rd sub = Inr sub' \<Longrightarrow>
     map fst sub' = map fst sub \<and> list_all (\<lambda>kv. wf_tree (snd kv)) sub'"
proof (induction sub arbitrary: sub')
  case Nil
  then show ?case by simp
next
  case (Cons kv sub)
  obtain k v where kv: "kv = (k, v)" by (cases kv)
  from Cons.prems obtain s rest' where s: "join_value rd v = Inr s"
    and r: "spec_join_all rd sub = Inr rest'" and e: "sub' = (k, s) # rest'"
    by (auto simp: kv split: sum.splits)
  from join_value_PStr [OF s] Cons.IH [OF r] show ?case by (auto simp: e kv)
qed

lemma spec_items_wf:
  assumes "\<And>k v v'. (k, v) \<in> set items \<Longrightarrow> spec_resolve_value wd rd k v = Inr v' \<Longrightarrow>
      wf_tree v \<Longrightarrow> wf_tree v'"
    and "spec_resolve_items wd rd items = Inr items'"
    and "list_all (\<lambda>kv. wf_tree (snd kv)) items"
  shows "map fst items' = map fst items \<and> list_all (\<lambda>kv. wf_tree (snd kv)) items'"
  using assms
proof (induction items arbitrary: items')
  case Nil
  then show ?case by simp
next
  case (Cons kv items)
  obtain k v where kv: "kv = (k, v)" by (cases kv)
  from Cons.prems(2) obtain value' rest' where v: "spec_resolve_value wd rd k v = Inr value'"
    and r: "spec_resolve_items wd rd items = Inr rest'"
    and e: "items' = (k, value') # rest'"
    by (auto simp: kv split: sum.splits)
  have wv: "wf_tree v" and wr: "list_all (\<lambda>kv. wf_tree (snd kv)) items"
    using Cons.prems(3) by (simp_all add: kv)
  have a: "wf_tree value'"
    by (rule Cons.prems(1) [of k v]) (simp_all add: kv v wv)
  have b: "map fst rest' = map fst items \<and> list_all (\<lambda>kv. wf_tree (snd kv)) rest'"
    by (rule Cons.IH [OF _ r wr]) (rule Cons.prems(1), erule list.set_intros(2))
  from a b show ?case by (simp add: e kv)
qed

lemma spec_value_wf:
  "spec_resolve_value wd rd key v = Inr v' \<Longrightarrow> wf_tree v \<Longrightarrow> wf_tree v'"
proof (induction v arbitrary: key v')
  case (PDict sub)
  show ?case
  proof (cases "strip key = ''resources''")
    case True
    from PDict.prems(1) obtain sub' where j: "spec_join_all rd sub = Inr sub'"
      and v': "v' = PDict sub'"
      by (auto simp: spec_resolve_value.simps True split: sum.splits)
    from spec_join_all_wf [OF j] PDict.prems(2) show ?thesis by (simp add: v')
  next
    case False
    from PDict.prems(1) obtain sub' where j: "spec_resolve_items wd rd sub = Inr sub'"
      and v': "v' = PDict sub'"
      by (auto simp: spec_resolve_value.simps False split: sum.splits)
    have "map fst sub' = map fst sub \<and> list_all (\<lambda>kv. wf_tree (snd kv)) sub'"
    proof (rule spec_items_wf [OF _ j])
      show "list_all (\<lambda>kv. wf_tree (snd kv)) sub" using PDict.prems(2) by simp
    next
      fix k v v' assume "(k, v) \<in> set sub" "spec_resolve_value wd rd k v = Inr v'" "wf_tree v"
      then show "wf_tree v'" using PDict.IH [of "(k, v)" v k v'] by simp
    qed
    with PDict.prems(2) show ?thesis by (simp add: v')
  qed
qed (auto simp: spec_resolve_value.simps split: if_splits dest: join_value_PStr)

lemma spec_value_dict:
  "spec_resolve_value wd rd key (PDict sub) = Inr v' \<Longrightarrow> \<exists>sub'. v' = PDict sub'"
  by (auto simp: spec_resolve_value.simps split: if_splits sum.splits)

lemma spec_items_lookup:
  "spec_resolve_items wd rd items = Inr items' \<Longrightarrow> map_of items k = Some v \<Longrightarrow>
     \<exists>v'. map_of items' k = Some v' \<and> spec_resolve_value wd rd k v = Inr v'"
proof (induction items arbitrary: items')
  case Nil
  then show ?case by simp
next
  case (Cons kv items)
  obtain k0 v0 where kv: "kv = (k0, v0)" by (cases kv)
  from Cons.prems(1) obtain value' rest' where v: "spec_resolve_value wd rd k0 v0 = Inr value'"
    and r: "spec_resolve_items wd rd items = Inr rest'"
    and e: "items' = (k0, value') # rest'"
    by (auto simp: kv split: sum.splits)
  show ?case
  proof (cases "k = k0")
    case True
    with Cons.prems(2) v show ?thesis by (simp add: kv e)
  next
    case False
    with Cons.prems(2) Cons.IH [OF r] show ?thesis by (simp add: kv e)
  qed
qed

lemma resolve_wf_general:
  assumes "wf_tree c" "set_absolute_paths wd rd c = Inr config"
    and "lookup_path c [''general''] = Some (PDict g)"
  shows "\<exists>items g'. config = PDict items \<and> wf_tree config \<and>
     map_of items ''general'' = Some (PDict g')"
proof -
  from assms(3) obtain citems where c: "c = PDict citems"
    and gen: "map_of citems ''general'' = Some (PDict g)"
    by (cases c) (auto split: option.splits)
  from assms(2) obtain items where s: "spec_resolve_items wd rd citems = Inr items"
    and config: "config = PDict items"
    using resolve_refines [OF assms(1), of wd rd] by (auto simp: c split: sum.splits)
  have k: "map fst items = map fst citems \<and> list_all (\<lambda>kv. wf_tree (snd kv)) items"
  proof (rule spec_items_wf [OF _ s])
    show "list_all (\<lambda>kv. wf_tree (snd kv)) citems" using assms(1) c by simp
  qed (rule spec_value_wf)
  from spec_items_lookup [OF s gen] obtain v' where "map_of items ''general'' = Some v'"
    and "spec_resolve_value wd rd ''general'' (PDict g) = Inr v'" by blast
  with spec_value_dict obtain g' where "map_of items ''general'' = Some (PDict g')" by blast
  with k assms(1) show ?thesis by (auto simp: config c)
qed

lemma dict_set_wf:
  assumes "wf_tree (PDict items)" "map_of items k \<noteq> None" "wf_tree x"
  shows "wf_tree (PDict (dict_set k x items))"
  using assms dict_set_list_all [of "\<lambda>kv. wf_tree (snd kv)" k x items]
  by (simp add: dict_set_keys)

lemma subscript_Inr:
  "subscript v k = Inr x \<Longrightarrow> \<exists>items. v = PDict items \<and> map_of items k = Some x"
  by (cases v) (auto split: option.splits)

lemma finish_load_Returned:
  assumes "finish_load e m = Returned config" "wf_tree m"
  shows "\<exists>items g. config = PDict items \<and> wf_tree config \<and>
     map_of items ''general'' = Some (PDict g)"
proof -
  from assms(1) obtain gen w wp rp gen' c' where
    s1: "subscript m ''general'' = Inr gen" and
    s2: "subscript gen ''working_dir'' = Inr w" and
    s3: "setitem gen ''working_dir'' (PStr (path_str (absolute (cwd e) wp))) = Inr gen'" and
    s4: "setitem m ''general'' gen' = Inr c'" and
    s5: "set_absolute_paths (absolute (cwd e) wp) (absolute (cwd e) rp) c' = Inr config"
    by (auto simp: finish_load_def split: sum.splits)
  from subscript_Inr [OF s1] obtain mitems where m: "m = PDict mitems"
    and mg: "map_of mitems ''general'' = Some gen" by blast
  from subscript_Inr [OF s2] obtain gitems where g: "gen = PDict gitems"
    and gw: "map_of gitems ''working_dir'' = Some w" by blast
  have wgen: "wf_tree gen"
    using assms(2) map_of_SomeD [OF mg] unfolding m by (rule wf_tree_item)
  have gen': "gen' = PDict (dict_set ''working_dir'' (PStr (path_str (absolute (cwd e) wp))) gitems)"
    using s3 by (simp add: g)
  have wgen': "wf_tree gen'"
    unfolding gen' by (rule dict_set_wf) (use wgen g gw in simp_all)
  have c': "c' = PDict (dict_set ''general'' gen' mitems)"
    using s4 by (simp add: m)
  have wc': "wf_tree c'"
    unfolding c' by (rule dict_set_wf) (use assms(2) m mg wgen' in simp_all)
  have l: "lookup_path c' [''general''] =
      Some (PDict (dict_set ''working_dir'' (PStr (path_str (absolute (cwd e) wp))) gitems))"
    by (simp add: c' map_of_dict_set gen')
  from resolve_wf_general [OF wc' s5 l] show ?thesis .
qed

lemma wf_env_document:
  "wf_env e \<Longrightarrow> map_of (files e) n = Some (Document v) \<Longrightarrow> wf_tree v"
  by (auto simp: wf_env_def list_all_iff dest!: map_of_SomeD)

lemma read_config_wf:
  assumes "wf_env e" "read_config e src = (out, Returned c)"
  shows "wf_tree c"
proof (cases src)
  case (PStr s)
  with assms(2) have "map_of (files e) s = Some (Document c)"
    by (auto split: option.splits source_file.splits if_splits)
  with assms(1) show ?thesis by (rule wf_env_document)
qed (use assms(2) in simp_all)

lemma read_local_wf:
  assumes "wf_env e" "read_local e us = (out, Returned c)"
  shows "wf_tree c"
  using assms read_config_wf [of e "PStr us" out c]
  by (auto simp: read_local_def split: if_splits)

lemma load_config_Returned:
  assumes "wf_env e" "load_config e us ds = (out, Returned config)"
  shows "\<exists>items g. config = PDict items \<and> wf_tree config \<and>
     map_of items ''general'' = Some (PDict g)"
proof -
  from assms(2) obtain o1 c where r1: "read_config e (PStr ds) = (o1, Returned c)"
    by (cases "read_config e (PStr ds)") (auto simp: load_config_def split: outcome.splits)
  from assms(2) r1 obtain o2 l where r2: "read_local e us = (o2, Returned l)"
    by (cases "read_local e us") (auto simp: load_config_def split: outcome.splits)
  have f: "finish_load e (merge_tree c l ds) = Returned config"
    using assms(2) load_config_after_reads [OF r1 r2] by (auto split: if_splits)
  have "wf_tree (merge_tree c l ds)"
    using read_local_wf [OF assms(1) r2] read_config_wf [OF assms(1) r1] by (rule merge_tree_wf)
  with f show ?thesis by (rule finish_load_Returned)
qed

lemma set_sections_keys:
  "fst ` set (sections (set_sections items st)) = fst ` set items \<union> fst ` set (sections st)"
proof (induction items arbitrary: st)
  case Nil
  show ?case by simp
next
  case (Cons kv items)
  obtain k v where kv: "kv = (k, v)" by (cases kv)
  show ?case
    by (simp add: kv alloc_def Cons.IH dict_set_fst_image)
qed

lemma reset_loaded:
  assumes "wf_env e" "reset e us ds st0 = (out, Returned (), st)"
  shows "list_all (\<lambda>kb. snd kb < fresh st) (sections st) \<and>
    (\<exists>g general. map_of (sections st) ''general'' = Some g \<and> heap st g = PDict general \<and>
       distinct (map fst general)) \<and>
    (\<forall>k a. map_of (sections st) k = Some a \<longrightarrow> wf_tree (heap st a))"
proof -
  from assms(2) obtain config where l: "load_config e us ds = (out, Returned config)"
    by (cases "load_config e us ds") (auto simp: reset_def split: outcome.splits pyval.splits)
  from load_config_Returned [OF assms(1) l] obtain items g where c: "config = PDict items"
    and w: "wf_tree config" and gen: "map_of items ''general'' = Some (PDict g)" by blast
  let ?st1 = "st0\<lparr>sections := []\<rparr>"
  have st: "st = set_sections items ?st1"
    using assms(2) l by (simp add: reset_def c)
  have d: "distinct (map fst items)" using w c by simp
  have eff: "list_all (\<lambda>kb. snd kb < fresh st) (sections st) \<and>
    fresh ?st1 \<le> fresh st \<and>
    (\<forall>b < fresh ?st1. heap st b = heap ?st1 b) \<and>
    (\<forall>k a. map_of (sections st) k = Some a \<longrightarrow>
       (if k \<in> fst ` set items then map_of items k = Some (heap st a)
        else map_of (sections ?st1) k = Some a))"
    unfolding st by (rule set_sections_effect [OF d]) simp_all
  have look: "map_of items k = Some (heap st a')" if "map_of (sections st) k = Some a'" for k a'
  proof -
    have "if k \<in> fst ` set items then map_of items k = Some (heap st a')
        else map_of (sections ?st1) k = Some a'"
      by (rule eff [THEN conjunct2, THEN conjunct2, THEN conjunct2, rule_format, OF that])
    then show ?thesis by (cases "k \<in> fst ` set items") simp_all
  qed
  have keys: "fst ` set (sections st) = fst ` set items"
    unfolding st by (simp add: set_sections_keys)
  have "''general'' \<in> fst ` set (sections st)"
    unfolding keys using map_of_SomeD [OF gen] by force
  then obtain g0 where g0: "map_of (sections st) ''general'' = Some g0"
    by (cases "map_of (sections st) ''general''") (auto simp: map_of_eq_None_iff)
  have hg: "heap st g0 = PDict g" using look [OF g0] gen by simp
  have "wf_tree (PDict g)" using w map_of_SomeD [OF gen] unfolding c by (rule wf_tree_item)
  then have dg: "distinct (map fst g)" by simp
  have wfh: "wf_tree (heap st a')" if "map_of (sections st) k = Some a'" for k a'
    using w map_of_SomeD [OF look [OF that]] unfolding c by (rule wf_tree_item)
  show ?thesis
    using eff g0 hg dg wfh by blast
qed

text \<open>A section that holds a scalar or a sequence: \<^verbatim>\<open>get_part\<close> raises.\<close>

lemma get_part_not_mapping:
  assumes "map_of (sections st) name = Some a"
    and "heap st a \<noteq> PNone" and "\<not> isinstance_dict (heap st a)"
  shows "get_part st name = Inl AttributeError"
  using assms
  by (cases "heap st a") (simp_all add: get_part_def getitem_def alloc_def deepcopy_def)

section \<open>Claims about the store\<close>

text \<open>
  Claim C9, as amended. In a store that \<^verbatim>\<open>reset\<close> has loaded from documents with unique keys,
  for every section that holds a mapping or \<^verbatim>\<open>None\<close>: \<^verbatim>\<open>get_part\<close> returns a new object, not
  one of the stored sections, whose tree is the section's mapping (the empty mapping for
  \<^verbatim>\<open>None\<close>) updated with the general section, so that every key of the general section is
  there with the general section's value and every other key has the section's value; the
  sections of the store and every other object of the heap are as before. (A section that
  holds a scalar or a sequence has no \<^verbatim>\<open>update\<close>.)
\<close>

theorem get_part_overlays_general:
  assumes "wf_env e"
    and "reset e user_source default_source st0 = (out, Returned (), st)"
    and "map_of (sections st) name = Some a"
    and "heap st a = PNone \<and> sec = [] \<or> heap st a = PDict sec"
  shows "\<exists>p st' g general.
           get_part st name = Inr (p, st') \<and>
           map_of (sections st) ''general'' = Some g \<and> heap st g = PDict general \<and>
           heap st' p = PDict (dict_update sec general) \<and>
           map_of (dict_update sec general) = map_of sec ++ map_of general \<and>
           p \<notin> snd ` set (sections st) \<and>
           sections st' = sections st \<and>
           (\<forall>b. b \<noteq> p \<longrightarrow> heap st' b = heap st b)"
proof -
  from reset_loaded [OF assms(1,2)] obtain g general where
    inv: "list_all (\<lambda>kb. snd kb < fresh st) (sections st)" and
    g: "map_of (sections st) ''general'' = Some g" and hg: "heap st g = PDict general" and
    dg: "distinct (map fst general)" by blast
  let ?st' = "st\<lparr>heap := (heap st)(fresh st := PDict (dict_update sec general)),
                         fresh := Suc (fresh st)\<rparr>"
  have gp: "get_part st name = Inr (fresh st, ?st')"
    by (rule get_part_loaded [OF inv assms(3,4) g hg])
  have new: "fresh st \<notin> snd ` set (sections st)"
    using inv by (auto simp: list_all_iff)
  show ?thesis
    using gp g hg new map_of_dict_update [OF dg, of sec]
    by (intro exI [of _ "fresh st"] exI [of _ ?st'] exI [of _ g] exI [of _ general]) simp
qed

text \<open>
  The theorem at a store with a \<^verbatim>\<open>feature\<close> section that shares the key \<^verbatim>\<open>timeout\<close> with the
  general section, and a section that is \<^verbatim>\<open>None\<close>.
\<close>

theorem get_part_overlays_general_witness:
  "wf_env \<lparr>files = [(''d.yaml'', Document (PDict
       [(''general'', PDict [(''working_dir'', PStr ''.''), (''resources_dir'', PStr ''./res''),
                             (''timeout'', PInt 30)]),
        (''feature'', PDict [(''threshold'', PInt 5), (''timeout'', PInt 10)]),
        (''extra'', PNone)]))],
     cwd = ''/home/u''\<rparr> \<and>
   fst (snd (init \<lparr>files = [(''d.yaml'', Document (PDict
       [(''general'', PDict [(''working_dir'', PStr ''.''), (''resources_dir'', PStr ''./res''),
                             (''timeout'', PInt 30)]),
        (''feature'', PDict [(''threshold'', PInt 5), (''timeout'', PInt 10)]),
        (''extra'', PNone)]))],
     cwd = ''/home/u''\<rparr> ''u.yaml'' ''d.yaml'')) = Returned () \<and>
   part_value (snd (snd (init \<lparr>files = [(''d.yaml'', Document (PDict
       [(''general'', PDict [(''working_dir'', PStr ''.''), (''resources_dir'', PStr ''./res''),
                             (''timeout'', PInt 30)]),
        (''feature'', PDict [(''threshold'', PInt 5), (''timeout'', PInt 10)]),
        (''extra'', PNone)]))],
     cwd = ''/home/u''\<rparr> ''u.yaml'' ''d.yaml''))) ''feature'' =
   Inr (PDict [(''threshold'', PInt 5), (''timeout'', PInt 30),
               (''working_dir'', PStr ''/home/u''), (''resources_dir'', PStr ''./res'')]) \<and>
   part_value (snd (snd (init \<lparr>files = [(''d.yaml'', Document (PDict
       [(''general'', PDict [(''working_dir'', PStr ''.''), (''resources_dir'', PStr ''./res''),
                             (''timeout'', PInt 30)]),
        (''feature'', PDict [(''threshold'', PInt 5), (''timeout'', PInt 10)]),
        (''extra'', PNone)]))],
     cwd = ''/home/u''\<rparr> ''u.yaml'' ''d.yaml''))) ''extra'' =
   Inr (PDict [(''working_dir'', PStr ''/home/u''), (''resources_dir'', PStr ''./res''),
               (''timeout'', PInt 30)])"
proof -
  let ?e = "\<lparr>files = [(''d.yaml'', Document (PDict
       [(''general'', PDict [(''working_dir'', PStr ''.''), (''resources_dir'', PStr ''./res''),
                             (''timeout'', PInt 30)]),
        (''feature'', PDict [(''threshold'', PInt 5), (''timeout'', PInt 10)]),
        (''extra'', PNone)]))],
     cwd = ''/home/u''\<rparr>"
  let ?g = "[(''working_dir'', PStr ''/home/u''), (''resources_dir'', PStr ''./res''),
             (''timeout'', PInt 30)]"
  let ?f = "[(''threshold'', PInt 5), (''timeout'', PInt 10)]"
  let ?st = "\<lparr>sections = [(''general'', 0), (''feature'', 1), (''extra'', 2)],
      heap = (\<lambda>a. PNone)(0 := PDict ?g, 1 := PDict ?f, 2 := PNone), fresh = 3\<rparr>"
  have w: "wf_env ?e" by (simp add: wf_env_def)
  have r: "reset ?e ''u.yaml'' ''d.yaml'' new_config = ([], Returned (), ?st)"
    by (simp add: reset_def load_config_def read_local_def update_config.simps finish_load_def
        set_absolute_paths.simps absolute_def parse_path_def path_str_def join_value_def
        strip_def is_space_def new_config_def alloc_def numeral_2_eq_2 numeral_3_eq_3)
  have i: "init ?e ''u.yaml'' ''d.yaml'' = ([], Returned (), ?st)"
    by (simp add: init_def r)
  have s1: "map_of (sections ?st) ''feature'' = Some 1" by simp
  have h1: "heap ?st 1 = PNone \<and> ?f = [] \<or> heap ?st 1 = PDict ?f" by simp
  have s2: "map_of (sections ?st) ''extra'' = Some 2" by simp
  have h2: "heap ?st 2 = PNone \<and> [] = [] \<or> heap ?st 2 = PDict []" by simp
  from get_part_overlays_general [OF w r s1 h1]
  have p1: "part_value ?st ''feature'' = Inr (PDict (dict_update ?f ?g))"
    by (auto simp: part_value_def)
  from get_part_overlays_general [OF w r s2 h2]
  have p2: "part_value ?st ''extra'' = Inr (PDict (dict_update [] ?g))"
    by (auto simp: part_value_def)
  show ?thesis
    unfolding i using w p1 p2 by simp
qed

text \<open>
  Claim C9 as stated fails for a loaded top-level key that holds a scalar: the call raises
  \<^verbatim>\<open>AttributeError\<close>.
\<close>

theorem get_part_scalar_section_counterexample:
  "fst (snd (init \<lparr>files = [(''d.yaml'', Document (PDict
       [(''general'', PDict [(''working_dir'', PStr ''.''), (''resources_dir'', PStr ''./res'')]),
        (''version'', PInt 3)]))],
     cwd = ''/home/u''\<rparr> ''u.yaml'' ''d.yaml'')) = Returned () \<and>
   map_of (sections (snd (snd (init \<lparr>files = [(''d.yaml'', Document (PDict
       [(''general'', PDict [(''working_dir'', PStr ''.''), (''resources_dir'', PStr ''./res'')]),
        (''version'', PInt 3)]))],
     cwd = ''/home/u''\<rparr> ''u.yaml'' ''d.yaml'')))) ''version'' = Some 1 \<and>
   part_value (snd (snd (init \<lparr>files = [(''d.yaml'', Document (PDict
       [(''general'', PDict [(''working_dir'', PStr ''.''), (''resources_dir'', PStr ''./res'')]),
        (''version'', PInt 3)]))],
     cwd = ''/home/u''\<rparr> ''u.yaml'' ''d.yaml''))) ''version'' = Inl AttributeError"
  by (simp add: init_def reset_def load_config_def read_local_def update_config.simps finish_load_def
      set_absolute_paths.simps absolute_def parse_path_def path_str_def join_value_def
      strip_def is_space_def new_config_def alloc_def part_value_def get_part_def getitem_def
      deepcopy_def)

end
